theory Spec2Isabelle
  imports Main "HOL-Library.Sublist" "HOL-Library.Multiset"
begin

section \<open>Go strings and the calls into package strings\<close>

text \<open>
  A Go string is a sequence of bytes, so it is a \<open>string\<close> (a list of 8-bit characters).
  The functions of package \<open>strings\<close> that the program calls are written out on bytes.
  Every separator, cut set and replaced text the program passes is an ASCII literal, and an
  ASCII byte never occurs inside the UTF-8 encoding of another rune, so working on bytes
  gives the same result as the library, which works on runes.
\<close>

text \<open>\<open>strings.HasPrefix(s, prefix)\<close>.\<close>

definition HasPrefix :: "string \<Rightarrow> string \<Rightarrow> bool" where
  "HasPrefix s pre = (take (length pre) s = pre)"

text \<open>
  \<open>strings.ReplaceAll(s, old, new)\<close> where \<open>old\<close> is one byte, which is the case at every
  call of the program (\<open>","\<close>, \<open>":"\<close> and the members of \<open>invalidChars\<close>).
\<close>

definition ReplaceAll :: "string \<Rightarrow> char \<Rightarrow> string \<Rightarrow> string" where
  "ReplaceAll s old new = concat (map (\<lambda>c. if c = old then new else [c]) s)"

text \<open>
  \<open>strings.Split(s, sep)\<close> where \<open>sep\<close> is one byte (the program only splits at \<open>" "\<close>):
  the pieces between the separators, one more than there are separators.
\<close>

fun Split :: "string \<Rightarrow> char \<Rightarrow> string list" where
  "Split [] sep = [[]]"
| "Split (c # cs) sep =
     (if c = sep then [] # Split cs sep
      else (case Split cs sep of [] \<Rightarrow> [[c]] | p # ps \<Rightarrow> (c # p) # ps))"

text \<open>\<open>strings.Join(elems, sep)\<close>.\<close>

fun Join :: "string list \<Rightarrow> string \<Rightarrow> string" where
  "Join [] sep = []"
| "Join [x] sep = x"
| "Join (x # y # ys) sep = x @ sep @ Join (y # ys) sep"

text \<open>\<open>strings.Trim(s, cutset)\<close> for an ASCII cut set: leading and trailing bytes of the set go.\<close>

definition Trim :: "string \<Rightarrow> string \<Rightarrow> string" where
  "Trim s cutset =
     rev (dropWhile (\<lambda>c. c \<in> set cutset) (rev (dropWhile (\<lambda>c. c \<in> set cutset) s)))"

text \<open>
  \<open>strings.TrimSpace(s)\<close> removes leading and trailing runes for which \<open>unicode.IsSpace\<close>
  holds. \<open>spaceRunes\<close> lists the UTF-8 encodings of those runes: tab, line feed, vertical
  tab, form feed, carriage return, space, U+0085, U+00A0, U+1680, U+2000 to U+200A, U+2028,
  U+2029, U+202F, U+205F and U+3000. Bytes that do not decode count as U+FFFD, which is
  not a space, so trimming stops there on either side.
\<close>

definition spaceRunes :: "string list" where
  "spaceRunes =
     [[CHR 0x09], [CHR 0x0A], [CHR 0x0B], [CHR 0x0C], [CHR 0x0D], [CHR 0x20],
      [CHR 0xC2, CHR 0x85], [CHR 0xC2, CHR 0xA0], [CHR 0xE1, CHR 0x9A, CHR 0x80],
      [CHR 0xE2, CHR 0x80, CHR 0x80], [CHR 0xE2, CHR 0x80, CHR 0x81],
      [CHR 0xE2, CHR 0x80, CHR 0x82], [CHR 0xE2, CHR 0x80, CHR 0x83],
      [CHR 0xE2, CHR 0x80, CHR 0x84], [CHR 0xE2, CHR 0x80, CHR 0x85],
      [CHR 0xE2, CHR 0x80, CHR 0x86], [CHR 0xE2, CHR 0x80, CHR 0x87],
      [CHR 0xE2, CHR 0x80, CHR 0x88], [CHR 0xE2, CHR 0x80, CHR 0x89],
      [CHR 0xE2, CHR 0x80, CHR 0x8A], [CHR 0xE2, CHR 0x80, CHR 0xA8],
      [CHR 0xE2, CHR 0x80, CHR 0xA9], [CHR 0xE2, CHR 0x80, CHR 0xAF],
      [CHR 0xE2, CHR 0x81, CHR 0x9F], [CHR 0xE3, CHR 0x80, CHR 0x80]]"

function TrimLeftSpace :: "string \<Rightarrow> string" where
  "TrimLeftSpace s =
     (case find (\<lambda>q. prefix q s) spaceRunes of
        None \<Rightarrow> s
      | Some q \<Rightarrow> TrimLeftSpace (drop (length q) s))"
  by pat_completeness auto
termination
proof (relation "measure length")
  fix s q
  assume "find (\<lambda>q. prefix q s) spaceRunes = Some q"
  then have "q \<in> set spaceRunes" and "prefix q s"
    by (auto simp: find_Some_iff)
  then have "q \<noteq> []" and "length q \<le> length s"
    by (auto simp: spaceRunes_def prefix_length_le)
  then show "(drop (length q) s, s) \<in> measure length"
    by (cases q) auto
qed simp

function TrimRightSpace :: "string \<Rightarrow> string" where
  "TrimRightSpace s =
     (case find (\<lambda>q. suffix q s) spaceRunes of
        None \<Rightarrow> s
      | Some q \<Rightarrow> TrimRightSpace (take (length s - length q) s))"
  by pat_completeness auto
termination
proof (relation "measure length")
  fix s q
  assume "find (\<lambda>q. suffix q s) spaceRunes = Some q"
  then have "q \<in> set spaceRunes" and "suffix q s"
    by (auto simp: find_Some_iff)
  then have "q \<noteq> []" and "length q \<le> length s"
    by (auto simp: spaceRunes_def suffix_length_le)
  then show "(take (length s - length q) s, s) \<in> measure length"
    by (cases q) auto
qed simp

definition TrimSpace :: "string \<Rightarrow> string" where
  "TrimSpace s = TrimRightSpace (TrimLeftSpace s)"

text \<open>The bytes that occur in the encodings of white space.\<close>

definition spaceBytes :: "char set" where
  "spaceBytes = \<Union> (set ` set spaceRunes)"

text \<open>\<open>strings.TrimSuffix(s, suffix)\<close>.\<close>

definition TrimSuffix :: "string \<Rightarrow> string \<Rightarrow> string" where
  "TrimSuffix s suf = (if suffix suf s then take (length s - length suf) s else s)"

text \<open>\<open>fmt.Sprintf("%s %s.eml", a, b)\<close>, the only format the program uses for file names.\<close>

definition Sprintf_eml :: "string \<Rightarrow> string \<Rightarrow> string" where
  "Sprintf_eml a b = a @ '' '' @ b @ ''.eml''"

section \<open>The record of one message\<close>

record EmailRecord =
  URLDomains :: string
  Folder :: string
  Subject :: string
  FromName :: string
  FromEmail :: string
  ToName :: string
  ToEmail :: string
  SentDate :: string
  IP :: string
  URLs :: string
  OriginalFile :: string

section \<open>Canonical file names: \<open>formatTime\<close>, \<open>sanitizeFilename\<close>, \<open>renameFile\<close>\<close>

definition formatTime :: "string \<Rightarrow> string" where
  "formatTime sentDate =
     (if sentDate = [] then ''unknown''
      else
        let parts = Split sentDate (CHR '' '') in
        if length parts \<ge> 2 then
          let datePart = parts ! 0;
              timePart = ReplaceAll (parts ! 1) (CHR '':'') []
          in datePart @ ''_'' @ timePart
        else sentDate)"

definition invalidChars :: "char list" where
  "invalidChars =
     [CHR ''/'', CHR 0x5C, CHR '':'', CHR ''*'', CHR ''?'', CHR 0x22, CHR ''<'', CHR ''>'',
      CHR ''|'']"

definition sanitizeFilename :: "string \<Rightarrow> string" where
  "sanitizeFilename name = foldl (\<lambda>name ch. ReplaceAll name ch ''_'') name invalidChars"

text \<open>
  The name that \<open>renameFile\<close> and \<open>renameFileTo\<close> both compute (their local \<open>newName\<close>) before
  they join it to the target directory.
\<close>

definition newName :: "EmailRecord \<Rightarrow> string" where
  "newName record = sanitizeFilename (Sprintf_eml (formatTime (SentDate record)) (Subject record))"

section \<open>Link extraction: \<open>extractUrls\<close>\<close>

text \<open>Errors of the libraries are opaque values carrying a message.\<close>

datatype error = Error string

text \<open>
  The tree that \<open>html.Parse\<close> of golang.org/x/net/html returns: a node has a type, its data
  (the tag name of an element), its attributes and its children in sibling order
  (\<open>FirstChild\<close>, then \<open>NextSibling\<close> until nil).
\<close>

datatype NodeType =
  ErrorNode | TextNode | DocumentNode | ElementNode | CommentNode | DoctypeNode | RawNode

datatype Attribute = Attribute (Namespace: string) (Key: string) (Val: string)

datatype Node = Node (Type: NodeType) (Data: string) (Attr: "Attribute list") (Children: "Node list")

text \<open>The loop over \<open>n.Attr\<close> inside \<open>crawler\<close>; \<open>urls\<close> is the slice the closure appends to.\<close>

fun attrLoop :: "Attribute list \<Rightarrow> string list \<Rightarrow> string list" where
  "attrLoop [] urls = urls"
| "attrLoop (attr # rest) urls =
     attrLoop rest
       (if Key attr = ''href'' \<and> HasPrefix (Val attr) ''http'' then urls @ [Val attr] else urls)"

fun crawler :: "Node \<Rightarrow> string list \<Rightarrow> string list" where
  "crawler (Node ty data attrs cs) urls =
     fold crawler cs
       (if ty = ElementNode \<and> data = ''a'' then attrLoop attrs urls else urls)"

text \<open>
  The loop that removes duplicates: the state is the map \<open>unique\<close> (used as a set of keys) and
  the slice \<open>result\<close>.
\<close>

fun uniqueLoop :: "string list \<Rightarrow> string set \<times> string list \<Rightarrow> string set \<times> string list" where
  "uniqueLoop [] st = st"
| "uniqueLoop (u # us) (unique, result) =
     uniqueLoop us (if u \<in> unique then (unique, result) else (insert u unique, result @ [u]))"

text \<open>
  \<open>urlRegex\<close> is \<open>https?://[^\s"']+\<close>. In Go's regexp \<open>\s\<close> is tab, line feed, form feed,
  carriage return and space. \<open>urlRegex_at s\<close> is the match that starts at the first byte of
  \<open>s\<close>, if there is one: the scheme, then the longest run of class bytes (the repetition is
  greedy), which must not be empty.
\<close>

definition urlChar :: "char \<Rightarrow> bool" where
  "urlChar c =
     (c \<notin> {CHR 0x09, CHR 0x0A, CHR 0x0C, CHR 0x0D, CHR 0x20, CHR 0x22, CHR 0x27})"

definition urlRegex_at :: "string \<Rightarrow> string option" where
  "urlRegex_at s =
     (let scheme =
            (if HasPrefix s ''https://'' then Some ''https://''
             else if HasPrefix s ''http://'' then Some ''http://''
             else None)
      in case scheme of
           None \<Rightarrow> None
         | Some sch \<Rightarrow>
             (let run = takeWhile urlChar (drop (length sch) s)
              in if run = [] then None else Some (sch @ run)))"

text \<open>
  \<open>urlRegex.FindAllString(s, -1)\<close>: the leftmost match, then the leftmost match after its
  end, and so on.
\<close>

function urlRegex_FindAllString :: "string \<Rightarrow> string list" where
  "urlRegex_FindAllString s =
     (case s of
        [] \<Rightarrow> []
      | c # cs \<Rightarrow>
          (case urlRegex_at s of
             Some m \<Rightarrow> m # urlRegex_FindAllString (drop (length m) s)
           | None \<Rightarrow> urlRegex_FindAllString cs))"
  by pat_completeness auto
termination
  by (relation "measure length")
     (auto simp: urlRegex_at_def Let_def split: if_splits option.splits)

text \<open>\<open>extractUrls\<close>; \<open>html_Parse\<close> stands for \<open>html.Parse(strings.NewReader(htmlContent))\<close>.\<close>

definition extractUrls :: "(string \<Rightarrow> error + Node) \<Rightarrow> string \<Rightarrow> string list" where
  "extractUrls html_Parse htmlContent =
     (if TrimSpace htmlContent = [] then []
      else
        case html_Parse htmlContent of
          Inl err \<Rightarrow> urlRegex_FindAllString htmlContent
        | Inr doc \<Rightarrow> snd (uniqueLoop (crawler doc []) ({}, [])))"

subsection \<open>What the specification says the extractor computes\<close>

text \<open>
  The nodes of a document in document order (depth first, children left to right), the
  \<open>href\<close> values an anchor element contributes, and the values collected over the document.
\<close>

fun spec_documentOrder :: "Node \<Rightarrow> Node list" where
  "spec_documentOrder (Node ty data attrs cs) =
     Node ty data attrs cs # concat (map spec_documentOrder cs)"

definition spec_anchorHrefs :: "Node \<Rightarrow> string list" where
  "spec_anchorHrefs n =
     (if Type n = ElementNode \<and> Data n = ''a''
      then map Val (filter (\<lambda>a. Key a = ''href'' \<and> HasPrefix (Val a) ''http'') (Attr n))
      else [])"

definition spec_collected :: "Node \<Rightarrow> string list" where
  "spec_collected doc = concat (map spec_anchorHrefs (spec_documentOrder doc))"

text \<open>
  Deduplication that keeps first occurrences: the elements at the positions whose value
  does not occur at an earlier position, in the order of those positions.
\<close>

definition spec_firstOccurrences :: "'a list \<Rightarrow> 'a list" where
  "spec_firstOccurrences xs =
     map (\<lambda>i. xs ! i) (filter (\<lambda>i. xs ! i \<notin> set (take i xs)) [0..<length xs])"

text \<open>
  A match of the fallback pattern at the start of a text: \<open>http\<close> or \<open>https\<close>, \<open>://\<close>, and a
  run of bytes that are neither white space of the pattern nor quotes, not empty and not
  extensible. The matches of a text, left to right: a gap in which no match starts, a match,
  and the matches of what follows it.
\<close>

definition spec_urlMatch :: "string \<Rightarrow> string \<Rightarrow> bool" where
  "spec_urlMatch s m =
     (\<exists>run rest. run \<noteq> [] \<and> list_all urlChar run
        \<and> (m = ''http://'' @ run \<or> m = ''https://'' @ run)
        \<and> s = m @ rest \<and> (rest = [] \<or> \<not> urlChar (hd rest)))"

inductive spec_allMatches :: "string \<Rightarrow> string list \<Rightarrow> bool" where
  none: "(\<And>i. i < length s \<Longrightarrow> \<not> (\<exists>m. spec_urlMatch (drop i s) m)) \<Longrightarrow> spec_allMatches s []"
| more: "(\<And>i. i < length gap \<Longrightarrow> \<not> (\<exists>m'. spec_urlMatch (drop i (gap @ m @ rest)) m')) \<Longrightarrow>
         spec_urlMatch (m @ rest) m \<Longrightarrow> spec_allMatches rest ms \<Longrightarrow>
         spec_allMatches (gap @ m @ rest) (m # ms)"

section \<open>Addresses: \<open>parseAddress\<close>\<close>

text \<open>An address as package \<open>mail\<close> returns it.\<close>

datatype MailAddress = MailAddress (Name: string) (Address: string)

text \<open>
  The pattern of \<open>parseAddress\<close> is
  \<open>(?i)^(?:"?([^"]*)"?\s*)?<?([a-z0-9._%+\-]+@[a-z0-9.\-]+\.[a-z]{2,})>?$\<close>.
  Go's regexp returns the match a backtracking search finds first, where a greedy operator
  tries the longer alternative first. The search below is that search, one \<open>firstSome\<close> per
  operator, with the candidates of each operator listed in the order of preference.
\<close>

fun firstSome :: "('a \<Rightarrow> 'b option) \<Rightarrow> 'a list \<Rightarrow> 'b option" where
  "firstSome f [] = None"
| "firstSome f (x # xs) = (case f x of Some y \<Rightarrow> Some y | None \<Rightarrow> firstSome f xs)"

text \<open>The numbers of bytes \<open>c?\<close> may take at the start of \<open>s\<close>: the byte if it is there, or nothing.\<close>

definition optByte :: "char \<Rightarrow> string \<Rightarrow> nat list" where
  "optByte c s = (if HasPrefix s [c] then [1, 0] else [0])"

text \<open>The numbers of bytes a greedy \<open>*\<close> over a class of single bytes may take, longest first.\<close>

definition greedyRun :: "(char \<Rightarrow> bool) \<Rightarrow> string \<Rightarrow> nat list" where
  "greedyRun P s = rev [0..<Suc (length (takeWhile P s))]"

text \<open>\<open>\s\<close> of the pattern language: tab, line feed, form feed, carriage return, space.\<close>

definition regexSpace :: "char \<Rightarrow> bool" where
  "regexSpace c = (c \<in> {CHR 0x09, CHR 0x0A, CHR 0x0C, CHR 0x0D, CHR 0x20})"

text \<open>
  Under \<open>(?i)\<close> the class \<open>[a-z]\<close> holds the ASCII letters of both cases and the two runes
  that fold to a letter, U+017F and U+212A, here in UTF-8. The other members of the classes
  of the pattern have no case.
\<close>

definition letterRunes :: "string list" where
  "letterRunes =
     map (\<lambda>c. [c]) (''abcdefghijklmnopqrstuvwxyz'' @ ''ABCDEFGHIJKLMNOPQRSTUVWXYZ'')
     @ [[CHR 0xC5, CHR 0xBF], [CHR 0xE2, CHR 0x84, CHR 0xAA]]"

definition localRunes :: "string list" where
  "localRunes = letterRunes @ map (\<lambda>c. [c]) ''0123456789._%+-''"

definition domainRunes :: "string list" where
  "domainRunes = letterRunes @ map (\<lambda>c. [c]) ''0123456789.-''"

text \<open>
  The byte lengths of the prefixes of \<open>s\<close> that are zero, one, two, ... runes of a class,
  shortest first (no class holds an empty rune).
\<close>

function classRuns :: "string list \<Rightarrow> string \<Rightarrow> nat list" where
  "classRuns cls s =
     0 # (case find (\<lambda>q. prefix q s) cls of
            None \<Rightarrow> []
          | Some q \<Rightarrow>
              (if q = [] then []
               else map (\<lambda>n. length q + n) (classRuns cls (drop (length q) s))))"
  by pat_completeness auto
termination
proof (relation "measure (\<lambda>(cls, s). length s)")
  fix cls :: "string list" and s q :: string
  assume "find (\<lambda>q. prefix q s) cls = Some q" and "q \<noteq> []"
  then have "prefix q s" and "q \<noteq> []"
    by (auto simp: find_Some_iff)
  then have "0 < length q" and "length q \<le> length s"
    by (auto simp: prefix_length_le)
  then show "((cls, drop (length q) s), (cls, s)) \<in> measure (\<lambda>(cls, s). length s)"
    by (cases q) auto
qed simp

text \<open>
  The second group and what follows it, \<open>([a-z0-9._%+\-]+@[a-z0-9.\-]+\.[a-z]{2,})>?$\<close>, from
  the end of the pattern backwards. In each function \<open>s\<close> is the text at which the group
  starts, \<open>n\<close> the number of bytes the group has taken so far and \<open>rest\<close> the text after them;
  the result is the text of the group.

  \<open>>?$\<close>:
\<close>

definition email_close :: "string \<Rightarrow> nat \<Rightarrow> string \<Rightarrow> string option" where
  "email_close s n rest =
     firstSome (\<lambda>g. if drop g rest = [] then Some (take n s) else None) (optByte (CHR ''>'') rest)"

text \<open>\<open>\.[a-z]{2,}\<close> and the close:\<close>

definition email_tld :: "string \<Rightarrow> nat \<Rightarrow> string \<Rightarrow> string option" where
  "email_tld s n rest =
     (if HasPrefix rest ''.''
      then firstSome (\<lambda>t. email_close s (n + 1 + t) (drop t (drop 1 rest)))
             (rev (drop 2 (classRuns letterRunes (drop 1 rest))))
      else None)"

text \<open>\<open>@[a-z0-9.\-]+\<close> and the rest:\<close>

definition email_domain :: "string \<Rightarrow> nat \<Rightarrow> string \<Rightarrow> string option" where
  "email_domain s n rest =
     (if HasPrefix rest ''@''
      then firstSome (\<lambda>d. email_tld s (n + 1 + d) (drop d (drop 1 rest)))
             (rev (drop 1 (classRuns domainRunes (drop 1 rest))))
      else None)"

text \<open>\<open>[a-z0-9._%+\-]+\<close> and the rest:\<close>

definition email_at :: "string \<Rightarrow> string option" where
  "email_at s =
     firstSome (\<lambda>l. email_domain s l (drop l s)) (rev (drop 1 (classRuns localRunes s)))"

text \<open>\<open><?\<close> and the second group to the end of the text:\<close>

definition addr_tail :: "string \<Rightarrow> string option" where
  "addr_tail s = firstSome (\<lambda>lt. email_at (drop lt s)) (optByte (CHR ''<'') s)"

text \<open>
  The optional group \<open>(?:"?([^"]*)"?\s*)\<close> followed by the tail, again from its end backwards;
  \<open>name\<close> is the text the first group has taken. \<open>\s*\<close>:
\<close>

definition addr_space :: "string \<Rightarrow> string \<Rightarrow> (string \<times> string) option" where
  "addr_space name s =
     firstSome (\<lambda>w. map_option (\<lambda>e. (name, e)) (addr_tail (drop w s))) (greedyRun regexSpace s)"

text \<open>The second \<open>"?\<close>:\<close>

definition addr_quote :: "string \<Rightarrow> string \<Rightarrow> (string \<times> string) option" where
  "addr_quote name s = firstSome (\<lambda>q2. addr_space name (drop q2 s)) (optByte (CHR 0x22) s)"

text \<open>\<open>([^"]*)\<close>:\<close>

definition addr_name :: "string \<Rightarrow> (string \<times> string) option" where
  "addr_name s =
     firstSome (\<lambda>n. addr_quote (take n s) (drop n s)) (greedyRun (\<lambda>c. c \<noteq> CHR 0x22) s)"

text \<open>The first \<open>"?\<close>:\<close>

definition addr_group :: "string \<Rightarrow> (string \<times> string) option" where
  "addr_group s = firstSome (\<lambda>q1. addr_name (drop q1 s)) (optByte (CHR 0x22) s)"

text \<open>
  \<open>re.FindStringSubmatch(s)\<close>: \<open>None\<close> for no match (a nil slice), else the texts of the two
  groups. The pattern is anchored at both ends. The optional group is tried first; when it
  takes no part, the text of the first group is \<open>""\<close>.
\<close>

definition addrRegex_FindStringSubmatch :: "string \<Rightarrow> (string \<times> string) option" where
  "addrRegex_FindStringSubmatch s =
     (case addr_group s of
        Some m \<Rightarrow> Some m
      | None \<Rightarrow> map_option (\<lambda>e. ([], e)) (addr_tail s))"

text \<open>\<open>parseAddress\<close>; \<open>mail_ParseAddress\<close> stands for \<open>mail.ParseAddress\<close> of net/mail.\<close>

definition parseAddress :: "(string \<Rightarrow> error + MailAddress) \<Rightarrow> string \<Rightarrow> string \<times> string" where
  "parseAddress mail_ParseAddress input =
     (case mail_ParseAddress input of
        Inr addr \<Rightarrow> (Name addr, Address addr)
      | Inl err \<Rightarrow>
          (case addrRegex_FindStringSubmatch (TrimSpace input) of
             Some (m1, m2) \<Rightarrow> (TrimSpace m1, TrimSpace m2)
           | None \<Rightarrow> ([], Trim input [CHR '' '', CHR 0x22])))"

subsection \<open>What the specification says about the originating address\<close>

text \<open>
  The originating address as the specification words it: the header value without bracket
  characters, each comma replaced by a line feed.
\<close>

definition spec_originatingIP :: "string \<Rightarrow> string" where
  "spec_originatingIP raw =
     ReplaceAll (filter (\<lambda>c. c \<notin> set ''[]'') raw) (CHR '','') [CHR 0x0A]"

section \<open>Building the record: \<open>processEmlFile\<close>\<close>

text \<open>
  The library functions that \<open>processEmlFile\<close> and the functions for the side effects call
  and this development does not define: \<open>html.Parse\<close>, \<open>url.Parse\<close> (of the URL only \<open>Host\<close>
  is read), \<open>Time.Format\<close> with the layout \<open>2006-01-02 15:04:05\<close>, \<open>filepath.Base\<close>,
  \<open>filepath.Dir\<close>, \<open>mail.ParseAddress\<close>, \<open>mail.ParseDate\<close>, \<open>filepath.Join\<close> (of two
  elements), \<open>filepath.Rel\<close> and \<open>filepath.Ext\<close>. \<open>'t\<close> is the type of times.
\<close>

datatype URL = URL (Host: string)

record 't library =
  htmlParse :: "string \<Rightarrow> error + Node"
  urlParse :: "string \<Rightarrow> error + URL"
  timeFormat :: "'t \<Rightarrow> string"
  filepathBase :: "string \<Rightarrow> string"
  filepathDir :: "string \<Rightarrow> string"
  mailParseAddress :: "string \<Rightarrow> error + MailAddress"
  mailParseDate :: "string \<Rightarrow> error + 't"
  filepathJoin :: "string \<Rightarrow> string \<Rightarrow> string"
  filepathRel :: "string \<Rightarrow> string \<Rightarrow> error + string"
  filepathExt :: "string \<Rightarrow> string"

text \<open>The loop over \<open>urls\<close> that fills \<open>urlDomains\<close>.\<close>

fun urlDomainsLoop :: "(string \<Rightarrow> error + URL) \<Rightarrow> string list \<Rightarrow> string list \<Rightarrow> string list" where
  "urlDomainsLoop url_Parse [] urlDomains = urlDomains"
| "urlDomainsLoop url_Parse (u # us) urlDomains =
     urlDomainsLoop url_Parse us
       (case url_Parse u of
          Inr parsed \<Rightarrow> urlDomains @ [Host parsed]
        | Inl err \<Rightarrow> urlDomains)"

subsection \<open>The variant on go-message (the one \<open>processFilesConcurrently\<close> calls)\<close>

text \<open>
  What the reader of go-message answers for one file: \<open>h.Subject()\<close>, \<open>h.AddressList(key)\<close>,
  \<open>h.Date()\<close>, \<open>h.Get(key)\<close>, and the results of the successive calls of \<open>mr.NextPart()\<close> up to
  \<open>io.EOF\<close>. Of a part the program reads \<open>p.Header.Get("Content-Type")\<close> and
  \<open>io.ReadAll(p.Body)\<close>.
\<close>

datatype Part = Part (Content_Type: string) (Body: "error + string")

record 't Reader =
  h_Subject :: "error + string"
  h_AddressList :: "string \<Rightarrow> error + MailAddress list"
  h_Date :: "error + 't"
  h_Get :: "string \<Rightarrow> string"
  NextPart :: "(error + Part) list"

text \<open>Name and address of the first entry, if the list parsed and is not empty.\<close>

definition firstAddress :: "error + MailAddress list \<Rightarrow> string \<times> string" where
  "firstAddress r = (case r of Inr (a # rest) \<Rightarrow> (Name a, Address a) | _ \<Rightarrow> ([], []))"

text \<open>The loop over the parts: the body of the first \<open>text/html\<close> part that can be read.\<close>

fun partsLoop :: "(error + Part) list \<Rightarrow> error + string" where
  "partsLoop [] = Inr []"
| "partsLoop (Inl err # rest) = Inl err"
| "partsLoop (Inr p # rest) =
     (if HasPrefix (Content_Type p) ''text/html''
      then (case Body p of Inl err \<Rightarrow> partsLoop rest | Inr body \<Rightarrow> Inr body)
      else partsLoop rest)"

text \<open>
  \<open>CreateReader filePath\<close> stands for \<open>os.Open\<close> followed by \<open>messageMail.CreateReader\<close>: the
  reader over the file, or the error of either call.
\<close>

definition processEmlFile ::
  "'t library \<Rightarrow> (string \<Rightarrow> error + 't Reader) \<Rightarrow> string \<Rightarrow> error + EmailRecord \<times> string" where
  "processEmlFile lib CreateReader filePath =
     (case CreateReader filePath of
        Inl err \<Rightarrow> Inl err
      | Inr mr \<Rightarrow>
          let subject = (case h_Subject mr of Inr s \<Rightarrow> s | Inl err \<Rightarrow> []);
              (fromName, fromEmail) = firstAddress (h_AddressList mr ''From'');
              (toName, toEmail) = firstAddress (h_AddressList mr ''To'');
              sentDate = (case h_Date mr of Inr date \<Rightarrow> timeFormat lib date | Inl err \<Rightarrow> []);
              originIP = h_Get mr ''X-Originating-IP''
          in case partsLoop (NextPart mr) of
               Inl err \<Rightarrow> Inl err
             | Inr htmlContent \<Rightarrow>
                 let urls = extractUrls (htmlParse lib) htmlContent;
                     urlList = Join urls [CHR 0x0A];
                     urlDomains = urlDomainsLoop (urlParse lib) urls [];
                     folder = filepathBase lib (filepathDir lib filePath);
                     originalFile = filepathBase lib filePath
                 in Inr (\<lparr>URLDomains = Join urlDomains [CHR 0x0A],
                          Folder = folder,
                          Subject = subject,
                          FromName = fromName,
                          FromEmail = fromEmail,
                          ToName = toName,
                          ToEmail = toEmail,
                          SentDate = sentDate,
                          IP = ReplaceAll originIP (CHR '','') [CHR 0x0A],
                          URLs = urlList,
                          OriginalFile = originalFile\<rparr>,
                         htmlContent))"

subsection \<open>The variant on enmime\<close>

text \<open>
  What \<open>enmime.ReadEnvelope\<close> answers for one file: \<open>env.Root.Header.Get(key)\<close>,
  \<open>env.GetHeader(key)\<close> and \<open>env.HTML\<close>. \<open>ReadEnvelope filePath\<close> stands for \<open>os.Open\<close> followed
  by \<open>enmime.ReadEnvelope\<close>. The oldest variant builds the same record and returns it without
  the HTML text.
\<close>

record Envelope =
  Root_Header_Get :: "string \<Rightarrow> string"
  GetHeader :: "string \<Rightarrow> string"
  HTML :: string

definition processEmlFile_enmime ::
  "'t library \<Rightarrow> (string \<Rightarrow> error + Envelope) \<Rightarrow> string \<Rightarrow> error + EmailRecord \<times> string" where
  "processEmlFile_enmime lib ReadEnvelope filePath =
     (case ReadEnvelope filePath of
        Inl err \<Rightarrow> Inl err
      | Inr env \<Rightarrow>
          let (fromName, fromEmail) = parseAddress (mailParseAddress lib) (Root_Header_Get env ''From'');
              (toName, toEmail) = parseAddress (mailParseAddress lib) (Root_Header_Get env ''To'');
              subject = GetHeader env ''Subject'';
              originIP = Trim (Root_Header_Get env ''X-Originating-IP'') ''[]'';
              dateStr = Root_Header_Get env ''Date'';
              sentDate =
                (if dateStr \<noteq> []
                 then (case mailParseDate lib dateStr of
                         Inr t \<Rightarrow> timeFormat lib t
                       | Inl err \<Rightarrow> [])
                 else []);
              urls = extractUrls (htmlParse lib) (HTML env);
              urlList = Join urls [CHR 0x0A];
              urlDomains = urlDomainsLoop (urlParse lib) urls [];
              folder = filepathBase lib (filepathDir lib filePath);
              originalFile = filepathBase lib filePath
          in Inr (\<lparr>URLDomains = Join urlDomains [CHR 0x0A],
                   Folder = folder,
                   Subject = subject,
                   FromName = fromName,
                   FromEmail = fromEmail,
                   ToName = toName,
                   ToEmail = toEmail,
                   SentDate = sentDate,
                   IP = ReplaceAll originIP (CHR '','') [CHR 0x0A],
                   URLs = urlList,
                   OriginalFile = originalFile\<rparr>,
                  HTML env))"

section \<open>Side effects and the batch: \<open>processFilesConcurrently\<close>\<close>

subsection \<open>The file system\<close>

text \<open>
  The regular files a run can see: each path that names one, with the bytes of the file.
  Directories and permissions are not modelled, so \<open>os.MkdirAll\<close> always succeeds and a call
  of package \<open>os\<close> fails only for a file that is not there. \<open>os_Open\<close> stands for \<open>os.Open\<close>
  and the reading of the opened file; \<open>os.Rename\<close> replaces a file at the new path.
\<close>

type_synonym filesystem = "string \<rightharpoonup> string"

definition os_Open :: "filesystem \<Rightarrow> string \<Rightarrow> error + string" where
  "os_Open fs name =
     (case fs name of
        None \<Rightarrow> Inl (Error ''open: no such file or directory'')
      | Some bytes \<Rightarrow> Inr bytes)"

definition os_Rename :: "filesystem \<Rightarrow> string \<Rightarrow> string \<Rightarrow> error option \<times> filesystem" where
  "os_Rename fs oldpath newpath =
     (case fs oldpath of
        None \<Rightarrow> (Some (Error ''rename: no such file or directory''), fs)
      | Some bytes \<Rightarrow> (None, (fs(oldpath := None))(newpath \<mapsto> bytes)))"

definition os_WriteFile :: "filesystem \<Rightarrow> string \<Rightarrow> string \<Rightarrow> error option \<times> filesystem" where
  "os_WriteFile fs name data = (None, fs(name \<mapsto> data))"

text \<open>
  The paths that the three functions compute before they touch the file system: \<open>newPath\<close> of
  \<open>renameFile\<close>, \<open>newPath\<close> of \<open>renameFileTo\<close> and \<open>outPath\<close> of \<open>writeHtmlFile\<close>; the last two
  fail when \<open>filepath.Rel\<close> does.
\<close>

definition renameFile_newPath :: "'t library \<Rightarrow> string \<Rightarrow> EmailRecord \<Rightarrow> string" where
  "renameFile_newPath lib filePath record =
     (let dir = filepathDir lib filePath
      in filepathJoin lib dir (newName record))"

definition renameFileTo_newPath ::
  "'t library \<Rightarrow> string \<Rightarrow> string \<Rightarrow> string \<Rightarrow> EmailRecord \<Rightarrow> error + string" where
  "renameFileTo_newPath lib filePath inputRoot outputDir record =
     (case filepathRel lib inputRoot filePath of
        Inl err \<Rightarrow> Inl err
      | Inr relPath \<Rightarrow>
          let newRelPath = filepathJoin lib (filepathDir lib relPath) (newName record)
          in Inr (filepathJoin lib outputDir newRelPath))"

definition writeHtmlFile_outPath ::
  "'t library \<Rightarrow> string \<Rightarrow> string \<Rightarrow> string \<Rightarrow> error + string" where
  "writeHtmlFile_outPath lib filePath inputRoot htmlOutDir =
     (case filepathRel lib inputRoot filePath of
        Inl err \<Rightarrow> Inl err
      | Inr relPath \<Rightarrow>
          let newRelPath = TrimSuffix relPath (filepathExt lib relPath) @ ''.html''
          in Inr (filepathJoin lib htmlOutDir newRelPath))"

text \<open>
  \<open>renameFile\<close>, \<open>renameFileTo\<close> and \<open>writeHtmlFile\<close>: the error they return, if any, and the
  file system they leave. \<open>renameFileTo\<close> opens the source, creates the target, which empties a
  file that is already there (also when it is the source itself), and copies what the source
  then holds.
\<close>

definition renameFile ::
  "'t library \<Rightarrow> string \<Rightarrow> EmailRecord \<Rightarrow> filesystem \<Rightarrow> error option \<times> filesystem" where
  "renameFile lib filePath record fs =
     os_Rename fs filePath (renameFile_newPath lib filePath record)"

definition renameFileTo ::
  "'t library \<Rightarrow> string \<Rightarrow> string \<Rightarrow> string \<Rightarrow> EmailRecord \<Rightarrow> filesystem
     \<Rightarrow> error option \<times> filesystem" where
  "renameFileTo lib filePath inputRoot outputDir record fs =
     (case renameFileTo_newPath lib filePath inputRoot outputDir record of
        Inl err \<Rightarrow> (Some err, fs)
      | Inr newPath \<Rightarrow>
          (case os_Open fs filePath of
             Inl err \<Rightarrow> (Some err, fs)
           | Inr srcFile \<Rightarrow>
               let created = fs(newPath \<mapsto> []);
                   copied = (case os_Open created filePath of Inl err \<Rightarrow> [] | Inr bytes \<Rightarrow> bytes)
               in (None, created(newPath \<mapsto> copied))))"

definition writeHtmlFile ::
  "'t library \<Rightarrow> string \<Rightarrow> string \<Rightarrow> string \<Rightarrow> string \<Rightarrow> filesystem
     \<Rightarrow> error option \<times> filesystem" where
  "writeHtmlFile lib filePath inputRoot htmlOutDir htmlContent fs =
     (case writeHtmlFile_outPath lib filePath inputRoot htmlOutDir of
        Inl err \<Rightarrow> (Some err, fs)
      | Inr outPath \<Rightarrow> os_WriteFile fs outPath htmlContent)"

subsection \<open>The pipeline of one file\<close>

text \<open>
  The calls by which the pipeline of a file touches the file system, with their arguments, and
  what making a call leaves: the error of a call is logged and changes neither the record nor
  the calls that follow.
\<close>

datatype call =
    WriteHtmlFile string string string string
  | RenameFileTo string string string EmailRecord
  | RenameFile string EmailRecord

fun perform :: "'t library \<Rightarrow> call \<Rightarrow> filesystem \<Rightarrow> filesystem" where
  "perform lib (WriteHtmlFile filePath inputRoot htmlOutDir htmlContent) fs =
     snd (writeHtmlFile lib filePath inputRoot htmlOutDir htmlContent fs)"
| "perform lib (RenameFileTo filePath inputRoot outputDir record) fs =
     snd (renameFileTo lib filePath inputRoot outputDir record fs)"
| "perform lib (RenameFile filePath record) fs = snd (renameFile lib filePath record fs)"

text \<open>The options of a run that the pipelines read.\<close>

record Options =
  htmlOutDir :: string
  renameByHeader :: bool
  renameByHeaderTo :: string
  inputRoot :: string

text \<open>
  What a pipeline does with a file once \<open>processEmlFile\<close> has returned its record and HTML
  text: the statements between the error check and the sending (or appending) of the record,
  the same in \<open>processFilesConcurrently\<close>, \<open>walkDirectory\<close> and \<open>scanDirectoryOnce\<close>, as the
  calls they make in their order.
\<close>

definition sideEffects :: "Options \<Rightarrow> string \<Rightarrow> EmailRecord \<Rightarrow> string \<Rightarrow> call list" where
  "sideEffects opts path rec htmlContent =
     (if htmlOutDir opts \<noteq> []
      then [WriteHtmlFile path (inputRoot opts) (htmlOutDir opts) htmlContent] else [])
     @ (if renameByHeaderTo opts \<noteq> []
        then [RenameFileTo path (inputRoot opts) (renameByHeaderTo opts) rec]
        else if renameByHeader opts then [RenameFile path rec] else [])"

text \<open>
  \<open>processEmlFile\<close> reads its file when it is called. \<open>openReader\<close> and \<open>openEnvelope\<close> are its
  first two calls on a file system: \<open>os.Open\<close>, then \<open>messageMail.CreateReader\<close> or
  \<open>enmime.ReadEnvelope\<close> on the opened file; \<open>pipeline_gomessage\<close> and \<open>pipeline_enmime\<close> are
  the two variants of \<open>processEmlFile\<close> as functions of the file system and the path.
\<close>

type_synonym pipeline = "filesystem \<Rightarrow> string \<Rightarrow> error + EmailRecord \<times> string"

definition openReader ::
  "(string \<Rightarrow> error + 't Reader) \<Rightarrow> filesystem \<Rightarrow> string \<Rightarrow> error + 't Reader" where
  "openReader mail_CreateReader fs filePath =
     (case os_Open fs filePath of Inl err \<Rightarrow> Inl err | Inr f \<Rightarrow> mail_CreateReader f)"

definition openEnvelope ::
  "(string \<Rightarrow> error + Envelope) \<Rightarrow> filesystem \<Rightarrow> string \<Rightarrow> error + Envelope" where
  "openEnvelope enmime_ReadEnvelope fs filePath =
     (case os_Open fs filePath of Inl err \<Rightarrow> Inl err | Inr f \<Rightarrow> enmime_ReadEnvelope f)"

definition pipeline_gomessage :: "'t library \<Rightarrow> (string \<Rightarrow> error + 't Reader) \<Rightarrow> pipeline" where
  "pipeline_gomessage lib mail_CreateReader fs filePath =
     processEmlFile lib (openReader mail_CreateReader fs) filePath"

definition pipeline_enmime :: "'t library \<Rightarrow> (string \<Rightarrow> error + Envelope) \<Rightarrow> pipeline" where
  "pipeline_enmime lib enmime_ReadEnvelope fs filePath =
     processEmlFile_enmime lib (openEnvelope enmime_ReadEnvelope fs) filePath"

subsection \<open>The sequential variants\<close>

text \<open>
  The body of the callback of \<open>walkDirectory\<close> (and of the loop of \<open>scanDirectoryOnce\<close>) over
  the files that pass \<open>shouldProcessFile\<close>, in visiting order. The state is the slice
  \<open>records\<close>, the calls made so far and the file system.
\<close>

fun walkDirectory ::
  "'t library \<Rightarrow> Options \<Rightarrow> pipeline \<Rightarrow> string list
     \<Rightarrow> EmailRecord list \<times> call list \<times> filesystem \<Rightarrow> EmailRecord list \<times> call list \<times> filesystem" where
  "walkDirectory lib opts process [] st = st"
| "walkDirectory lib opts process (path # rest) (records, calls, fs) =
     walkDirectory lib opts process rest
       (case process fs path of
          Inl err \<Rightarrow> (records, calls, fs)
        | Inr (rec, htmlContent) \<Rightarrow>
            (records @ [rec], calls @ sideEffects opts path rec htmlContent,
             fold (perform lib) (sideEffects opts path rec htmlContent) fs))"

subsection \<open>The worker pool\<close>

text \<open>The struct \<open>result\<close> and the zero value of \<open>EmailRecord\<close>.\<close>

datatype result = Result (result_record: EmailRecord) (result_err: "error option")

definition EmailRecord_zero :: EmailRecord where
  "EmailRecord_zero =
     \<lparr>URLDomains = [], Folder = [], Subject = [], FromName = [], FromEmail = [], ToName = [],
      ToEmail = [], SentDate = [], IP = [], URLs = [], OriginalFile = []\<rparr>"

text \<open>
  One turn of the loop of a worker, from the call of \<open>processEmlFile\<close> on the file system as
  it is then: the calls the turn will make and the result it will send.
\<close>

definition workerBody :: "Options \<Rightarrow> pipeline \<Rightarrow> filesystem \<Rightarrow> string \<Rightarrow> call list \<times> result" where
  "workerBody opts process fs path =
     (case process fs path of
        Inl err \<Rightarrow> ([], Result EmailRecord_zero (Some err))
      | Inr (rec, htmlContent) \<Rightarrow> (sideEffects opts path rec htmlContent, Result rec None))"

text \<open>The loop of the main goroutine over the closed channel \<open>results\<close>.\<close>

fun collectLoop :: "result list \<Rightarrow> EmailRecord list \<Rightarrow> EmailRecord list" where
  "collectLoop [] records = records"
| "collectLoop (res # rest) records =
     collectLoop rest
       (case result_err res of Some err \<Rightarrow> records | None \<Rightarrow> records @ [result_record res])"

text \<open>
  The goroutines of \<open>processFilesConcurrently\<close> as a transition system. A worker waits at the
  channel \<open>tasks\<close>, has received a path and is about to call \<open>processEmlFile\<close> on it, is in the
  rest of the turn for a path (with the calls it has still to make and the result it will then
  send), or has called \<open>wg.Done\<close>. The state holds the paths the main goroutine has still to
  send, the contents of the two buffered channels, whether \<open>tasks\<close> is closed, the workers, the
  calls made so far, the file system and, once the function has returned, the slice it
  returned. Any goroutine that can move may move next, so the calls of different workers
  interleave, and a worker reads its file when its turn comes, from the file system as the
  calls made until then have left it. The reading of a file by \<open>processEmlFile\<close> is one move,
  and so is each call.
\<close>

datatype worker = Receiving | Processing string | Calling string "call list" result | Done

record state =
  unsent :: "string list"
  tasks :: "string list"
  tasks_closed :: bool
  workers :: "worker list"
  results :: "result list"
  calls :: "call list"
  files :: filesystem
  returned :: "EmailRecord list option"

definition initial :: "string list \<Rightarrow> nat \<Rightarrow> filesystem \<Rightarrow> state" where
  "initial paths workerCount fs =
     \<lparr>unsent = paths, tasks = [], tasks_closed = False,
      workers = replicate workerCount Receiving, results = [], calls = [], files = fs,
      returned = None\<rparr>"

text \<open>
  \<open>cap\<close> is the capacity of both channels, \<open>len(paths)\<close>. The main goroutine sends the paths,
  closes \<open>tasks\<close>, waits for all workers (\<open>wg.Wait\<close>), closes \<open>results\<close> and collects.
\<close>

inductive step :: "'t library \<Rightarrow> Options \<Rightarrow> pipeline \<Rightarrow> nat \<Rightarrow> state \<Rightarrow> state \<Rightarrow> bool"
  for lib opts process cap where
  send: "unsent s = p # ps \<Longrightarrow> length (tasks s) < cap \<Longrightarrow>
         step lib opts process cap s (s\<lparr>unsent := ps, tasks := tasks s @ [p]\<rparr>)"
| close: "unsent s = [] \<Longrightarrow> \<not> tasks_closed s \<Longrightarrow>
         step lib opts process cap s (s\<lparr>tasks_closed := True\<rparr>)"
| receive: "i < length (workers s) \<Longrightarrow> workers s ! i = Receiving \<Longrightarrow> tasks s = p # ps \<Longrightarrow>
         step lib opts process cap s (s\<lparr>tasks := ps, workers := (workers s)[i := Processing p]\<rparr>)"
| work: "i < length (workers s) \<Longrightarrow> workers s ! i = Processing p \<Longrightarrow>
         workerBody opts process (files s) p = (cs, res) \<Longrightarrow>
         step lib opts process cap s (s\<lparr>workers := (workers s)[i := Calling p cs res]\<rparr>)"
| call: "i < length (workers s) \<Longrightarrow> workers s ! i = Calling p (c # cs) res \<Longrightarrow>
         step lib opts process cap s
           (s\<lparr>workers := (workers s)[i := Calling p cs res], calls := calls s @ [c],
              files := perform lib c (files s)\<rparr>)"
| emit: "i < length (workers s) \<Longrightarrow> workers s ! i = Calling p [] res \<Longrightarrow>
         length (results s) < cap \<Longrightarrow>
         step lib opts process cap s
           (s\<lparr>results := results s @ [res], workers := (workers s)[i := Receiving]\<rparr>)"
| finish: "i < length (workers s) \<Longrightarrow> workers s ! i = Receiving \<Longrightarrow> tasks s = [] \<Longrightarrow>
         tasks_closed s \<Longrightarrow>
         step lib opts process cap s (s\<lparr>workers := (workers s)[i := Done]\<rparr>)"
| collect: "unsent s = [] \<Longrightarrow> tasks_closed s \<Longrightarrow> list_all (\<lambda>w. w = Done) (workers s) \<Longrightarrow>
         returned s = None \<Longrightarrow>
         step lib opts process cap s (s\<lparr>returned := Some (collectLoop (results s) [])\<rparr>)"

text \<open>
  The states a run of \<open>processFilesConcurrently(paths, workerCount, ...)\<close> can be in when it
  starts on the file system \<open>fs\<close>.
\<close>

definition reachable ::
  "'t library \<Rightarrow> Options \<Rightarrow> pipeline \<Rightarrow> string list \<Rightarrow> nat \<Rightarrow> filesystem \<Rightarrow> state \<Rightarrow> bool" where
  "reachable lib opts process paths workerCount fs s =
     (step lib opts process (length paths))\<^sup>*\<^sup>* (initial paths workerCount fs) s"

text \<open>
  The same transitions as functions, one for the main goroutine and one for a worker: the
  state after the next move of the goroutine, or \<open>None\<close> when it is blocked or has ended. A
  schedule names the goroutine that moves next; \<open>follow\<close> runs a schedule, and a goroutine that
  cannot move when it is named leaves the state as it is.
\<close>

datatype goroutine = Main | Worker nat

definition main_move :: "nat \<Rightarrow> state \<Rightarrow> state option" where
  "main_move cap s =
     (case unsent s of
        p # ps \<Rightarrow>
          if length (tasks s) < cap then Some (s\<lparr>unsent := ps, tasks := tasks s @ [p]\<rparr>)
          else None
      | [] \<Rightarrow>
          if \<not> tasks_closed s then Some (s\<lparr>tasks_closed := True\<rparr>)
          else if list_all (\<lambda>w. w = Done) (workers s) \<and> returned s = None
          then Some (s\<lparr>returned := Some (collectLoop (results s) [])\<rparr>)
          else None)"

definition worker_move ::
  "'t library \<Rightarrow> Options \<Rightarrow> pipeline \<Rightarrow> nat \<Rightarrow> nat \<Rightarrow> state \<Rightarrow> state option" where
  "worker_move lib opts process cap i s =
     (if i < length (workers s) then
        (case workers s ! i of
           Receiving \<Rightarrow>
             (case tasks s of
                p # ps \<Rightarrow> Some (s\<lparr>tasks := ps, workers := (workers s)[i := Processing p]\<rparr>)
              | [] \<Rightarrow>
                  if tasks_closed s then Some (s\<lparr>workers := (workers s)[i := Done]\<rparr>)
                  else None)
         | Processing p \<Rightarrow>
             (case workerBody opts process (files s) p of
                (cs, res) \<Rightarrow> Some (s\<lparr>workers := (workers s)[i := Calling p cs res]\<rparr>))
         | Calling p cs res \<Rightarrow>
             (case cs of
                c # rest \<Rightarrow>
                  Some (s\<lparr>workers := (workers s)[i := Calling p rest res],
                          calls := calls s @ [c], files := perform lib c (files s)\<rparr>)
              | [] \<Rightarrow>
                  if length (results s) < cap
                  then Some (s\<lparr>results := results s @ [res],
                               workers := (workers s)[i := Receiving]\<rparr>)
                  else None)
         | Done \<Rightarrow> None)
      else None)"

fun move ::
  "'t library \<Rightarrow> Options \<Rightarrow> pipeline \<Rightarrow> nat \<Rightarrow> goroutine \<Rightarrow> state \<Rightarrow> state option" where
  "move lib opts process cap Main s = main_move cap s"
| "move lib opts process cap (Worker i) s = worker_move lib opts process cap i s"

fun follow ::
  "'t library \<Rightarrow> Options \<Rightarrow> pipeline \<Rightarrow> nat \<Rightarrow> goroutine list \<Rightarrow> state \<Rightarrow> state" where
  "follow lib opts process cap [] s = s"
| "follow lib opts process cap (g # schedule) s =
     follow lib opts process cap schedule
       (case move lib opts process cap g s of None \<Rightarrow> s | Some s' \<Rightarrow> s')"

subsection \<open>Files that the calls of a run leave alone\<close>

text \<open>
  The paths at which a call can change the file system, and the condition under which the
  pipelines of a batch do not disturb one another: on the file system as it is at the start,
  no call that the pipeline of a candidate path makes changes a path that another task names.
\<close>

fun touched :: "'t library \<Rightarrow> call \<Rightarrow> string list" where
  "touched lib (WriteHtmlFile filePath root dir htmlContent) =
     (case writeHtmlFile_outPath lib filePath root dir of
        Inl err \<Rightarrow> [] | Inr outPath \<Rightarrow> [outPath])"
| "touched lib (RenameFileTo filePath root dir record) =
     (case renameFileTo_newPath lib filePath root dir record of
        Inl err \<Rightarrow> [] | Inr newPath \<Rightarrow> [newPath])"
| "touched lib (RenameFile filePath record) =
     (if renameFile_newPath lib filePath record = filePath then []
      else [filePath, renameFile_newPath lib filePath record])"

definition undisturbed ::
  "'t library \<Rightarrow> Options \<Rightarrow> pipeline \<Rightarrow> filesystem \<Rightarrow> string list \<Rightarrow> bool" where
  "undisturbed lib opts process fs paths =
     list_all
       (\<lambda>p. list_all (\<lambda>c. list_all (\<lambda>q. q \<notin> set (remove1 p paths)) (touched lib c))
              (fst (workerBody opts process fs p)))
       paths"

subsection \<open>Quantities of a state used in the proofs\<close>

text \<open>
  The result a path leads to on a given file system; the records of the results that are no
  errors; the records that the calls of a list copy, and those they rename in place.
\<close>

definition outcome :: "Options \<Rightarrow> pipeline \<Rightarrow> filesystem \<Rightarrow> string \<Rightarrow> result" where
  "outcome opts process fs path = snd (workerBody opts process fs path)"

definition success :: "result \<Rightarrow> EmailRecord list" where
  "success res = (case result_err res of Some err \<Rightarrow> [] | None \<Rightarrow> [result_record res])"

fun copiedRecords :: "call \<Rightarrow> EmailRecord list" where
  "copiedRecords (RenameFileTo filePath root dir record) = [record]"
| "copiedRecords (RenameFile filePath record) = []"
| "copiedRecords (WriteHtmlFile filePath root dir htmlContent) = []"

fun renamedRecords :: "call \<Rightarrow> EmailRecord list" where
  "renamedRecords (RenameFile filePath record) = [record]"
| "renamedRecords (RenameFileTo filePath root dir record) = []"
| "renamedRecords (WriteHtmlFile filePath root dir htmlContent) = []"

text \<open>
  What a worker has in hand: the number of results it will still send, the calls it has still
  to make, the result it holds, the path it is about to open and the path of its turn. The
  weight is a number that every transition lowers.
\<close>

fun in_hand :: "worker \<Rightarrow> nat" where
  "in_hand (Processing p) = 1"
| "in_hand (Calling p cs res) = 1"
| "in_hand Receiving = 0"
| "in_hand Done = 0"

fun owed :: "worker \<Rightarrow> call list" where
  "owed (Calling p cs res) = cs"
| "owed (Processing p) = []"
| "owed Receiving = []"
| "owed Done = []"

fun holding :: "worker \<Rightarrow> result list" where
  "holding (Calling p cs res) = [res]"
| "holding (Processing p) = []"
| "holding Receiving = []"
| "holding Done = []"

fun unopened :: "worker \<Rightarrow> string list" where
  "unopened (Processing p) = [p]"
| "unopened (Calling p cs res) = []"
| "unopened Receiving = []"
| "unopened Done = []"

fun turn :: "worker \<Rightarrow> string list" where
  "turn (Processing p) = [p]"
| "turn (Calling p cs res) = [p]"
| "turn Receiving = []"
| "turn Done = []"

fun worker_weight :: "worker \<Rightarrow> nat" where
  "worker_weight (Processing p) = 5"
| "worker_weight (Calling p cs res) = 2 + length cs"
| "worker_weight Receiving = 1"
| "worker_weight Done = 0"

definition weight :: "state \<Rightarrow> nat" where
  "weight s =
     7 * length (unsent s) + 6 * length (tasks s) + (if tasks_closed s then 0 else 1)
     + sum_list (map worker_weight (workers s)) + (if returned s = None then 1 else 0)"

text \<open>
  The invariant of the runs: every candidate path is waiting, in the hand of a worker or
  answered by a result; there are \<open>workerCount\<close> workers; the channel is closed only when every
  path is sent; a worker is done only when the channel is closed and empty; and the function
  has returned only after all workers were done, with the records collected from \<open>results\<close>.
\<close>

definition invariant :: "string list \<Rightarrow> nat \<Rightarrow> state \<Rightarrow> bool" where
  "invariant paths workerCount s =
     (length (results s) + sum_list (map in_hand (workers s)) + length (tasks s)
        + length (unsent s) = length paths
      \<and> length (workers s) = workerCount
      \<and> (tasks_closed s \<longrightarrow> unsent s = [])
      \<and> (Done \<in> set (workers s) \<longrightarrow> tasks_closed s \<and> tasks s = [])
      \<and> (returned s \<noteq> None \<longrightarrow>
            tasks_closed s \<and> list_all (\<lambda>w. w = Done) (workers s)
            \<and> returned s = Some (collectLoop (results s) [])))"

text \<open>
  The invariant of the runs in which no pipeline disturbs another, where \<open>fs\<close> is the file
  system at the start: the results, wherever they are, are those the candidate paths lead to
  on \<open>fs\<close>; a path that is still to be opened names the file it named at the start; the calls
  a worker has still to make are calls of its path on \<open>fs\<close>; and the paths that wait or are in
  a turn are among the candidate paths, each as often as it is one.
\<close>

fun inflight :: "Options \<Rightarrow> pipeline \<Rightarrow> filesystem \<Rightarrow> worker \<Rightarrow> result list" where
  "inflight opts process fs (Processing p) = [outcome opts process fs p]"
| "inflight opts process fs (Calling p cs res) = [res]"
| "inflight opts process fs Receiving = []"
| "inflight opts process fs Done = []"

definition waiting :: "state \<Rightarrow> string multiset" where
  "waiting s =
     mset (unsent s) + mset (tasks s) + sum_list (map (\<lambda>w. mset (unopened w)) (workers s))"

definition apart :: "Options \<Rightarrow> pipeline \<Rightarrow> string list \<Rightarrow> filesystem \<Rightarrow> state \<Rightarrow> bool" where
  "apart opts process paths fs s =
     (mset (results s) + sum_list (map (\<lambda>w. mset (inflight opts process fs w)) (workers s))
        + mset (map (outcome opts process fs) (tasks s @ unsent s))
        = mset (map (outcome opts process fs) paths)
      \<and> (\<forall>q. q \<in># waiting s \<longrightarrow> files s q = fs q)
      \<and> (\<forall>w \<in> set (workers s). \<forall>p \<in> set (turn w).
            set (owed w) \<subseteq> set (fst (workerBody opts process fs p)))
      \<and> mset (unsent s) + mset (tasks s) + sum_list (map (\<lambda>w. mset (turn w)) (workers s))
           \<subseteq># mset paths)"

section \<open>Example inputs\<close>

text \<open>
  The HTML body of the specification's end-to-end example, the tree \<open>html.Parse\<close> builds for it
  (a document, \<open>html\<close>, an empty \<open>head\<close>, and \<open>body\<close> with the three anchors), and a second body
  whose second link has a host that \<open>url.Parse\<close> rejects. The parsers of the example library
  answer for these inputs as the Go libraries do and fail elsewhere; its path functions are
  those of package \<open>filepath\<close> on clean relative paths with \<open>/\<close> as the separator.
\<close>

definition example_anchor :: "string \<Rightarrow> string \<Rightarrow> Node" where
  "example_anchor href txt =
     Node ElementNode ''a'' [Attribute [] ''href'' href] [Node TextNode txt [] []]"

definition example_document :: "Node list \<Rightarrow> Node" where
  "example_document nodes =
     Node DocumentNode [] []
       [Node ElementNode ''html'' []
          [Node ElementNode ''head'' [] [], Node ElementNode ''body'' [] nodes]]"

definition example_tag :: "string \<Rightarrow> string \<Rightarrow> string" where
  "example_tag href txt = ''<a href='' @ [CHR 0x22] @ href @ [CHR 0x22] @ ''>'' @ txt @ ''</a>''"

definition example_body :: string where
  "example_body =
     example_tag ''http://a.com/x'' ''x'' @ example_tag ''http://a.com/x'' ''dup''
     @ example_tag ''mailto:y@z.com'' ''skip''"

definition example_body2 :: string where
  "example_body2 = example_tag ''http://a.com/x'' ''x'' @ example_tag ''http://%zz/x'' ''y''"

definition example_html_Parse :: "string \<Rightarrow> error + Node" where
  "example_html_Parse h =
     (if h = example_body then
        Inr (example_document
               [example_anchor ''http://a.com/x'' ''x'', example_anchor ''http://a.com/x'' ''dup'',
                example_anchor ''mailto:y@z.com'' ''skip''])
      else if h = example_body2 then
        Inr (example_document
               [example_anchor ''http://a.com/x'' ''x'', example_anchor ''http://%zz/x'' ''y''])
      else Inl (Error ''html: parse error''))"

definition example_url_Parse :: "string \<Rightarrow> error + URL" where
  "example_url_Parse u =
     (if u = ''http://a.com/x'' then Inr (URL ''a.com'') else Inl (Error ''invalid URL escape''))"

text \<open>
  A time by its calendar fields, what \<open>Format\<close> prints for it under the layout
  \<open>2006-01-02 15:04:05\<close>, and the zero value of \<open>time.Time\<close>, which is January 1 of year 1,
  00:00:00.
\<close>

datatype example_time =
  Time (Year: nat) (Month: nat) (Day: nat) (Hour: nat) (Minute: nat) (Second: nat)

definition example_digit :: "nat \<Rightarrow> char" where
  "example_digit n = ''0123456789'' ! (n mod 10)"

definition example_Format :: "example_time \<Rightarrow> string" where
  "example_Format t =
     [example_digit (Year t div 1000), example_digit (Year t div 100),
      example_digit (Year t div 10), example_digit (Year t)] @ ''-''
     @ [example_digit (Month t div 10), example_digit (Month t)] @ ''-''
     @ [example_digit (Day t div 10), example_digit (Day t)] @ '' ''
     @ [example_digit (Hour t div 10), example_digit (Hour t)] @ '':''
     @ [example_digit (Minute t div 10), example_digit (Minute t)] @ '':''
     @ [example_digit (Second t div 10), example_digit (Second t)]"

definition example_zero_time :: example_time where
  "example_zero_time = Time 1 1 1 0 0 0"

definition example_library :: "example_time library" where
  "example_library =
     \<lparr>htmlParse = example_html_Parse,
      urlParse = example_url_Parse,
      timeFormat = example_Format,
      filepathBase = (\<lambda>p. rev (takeWhile (\<lambda>c. c \<noteq> CHR ''/'') (rev p))),
      filepathDir =
        (\<lambda>p. if CHR ''/'' \<in> set p then rev (drop 1 (dropWhile (\<lambda>c. c \<noteq> CHR ''/'') (rev p)))
             else ''.''),
      mailParseAddress =
        (\<lambda>a. if a = ''Bob <bob@example.com>'' then Inr (MailAddress ''Bob'' ''bob@example.com'')
             else Inl (Error ''mail: missing @ in addr-spec'')),
      mailParseDate = (\<lambda>d. Inl (Error ''mail: header could not be parsed'')),
      filepathJoin = (\<lambda>dir name. if dir = ''.'' \<or> dir = [] then name else dir @ ''/'' @ name),
      filepathRel =
        (\<lambda>base target. if HasPrefix target (base @ ''/'')
           then Inr (drop (length base + 1) target)
           else Inl (Error ''Rel: cannot make the path relative'')),
      filepathExt =
        (\<lambda>p. let elem = rev (takeWhile (\<lambda>c. c \<noteq> CHR ''/'') (rev p))
             in if CHR ''.'' \<in> set elem
                then CHR ''.'' # rev (takeWhile (\<lambda>c. c \<noteq> CHR ''.'') (rev elem))
                else [])\<rparr>"

text \<open>
  A message with subject \<open>Re: Q1\<close>, a \<open>From\<close> field \<open>foo\<close> that does not parse, a \<open>To\<close> field that
  does, a date that does not parse, the originating address \<open>[1.2.3.4]\<close>, a plain part and an
  HTML part with the second body; and the same message as enmime presents it.
\<close>

definition example_header :: "string \<Rightarrow> string" where
  "example_header key =
     (if key = ''X-Originating-IP'' then ''[1.2.3.4]''
      else if key = ''From'' then ''foo''
      else if key = ''To'' then ''Bob <bob@example.com>''
      else if key = ''Date'' then ''yesterday''
      else if key = ''Subject'' then ''Re: Q1''
      else [])"

definition example_reader :: "example_time Reader" where
  "example_reader =
     \<lparr>h_Subject = Inr ''Re: Q1'',
      h_AddressList =
        (\<lambda>key. if key = ''To'' then Inr [MailAddress ''Bob'' ''bob@example.com'']
              else Inl (Error ''mail: missing @ in addr-spec'')),
      h_Date = Inl (Error ''mail: header could not be parsed''),
      h_Get = example_header,
      NextPart =
        [Inr (Part ''text/plain'' (Inr ''hello'')),
         Inr (Part ''text/html; charset=utf-8'' (Inr example_body2))]\<rparr>"

definition example_envelope :: Envelope where
  "example_envelope =
     \<lparr>Root_Header_Get = example_header, GetHeader = example_header, HTML = example_body2\<rparr>"

definition example_record :: EmailRecord where
  "example_record =
     \<lparr>URLDomains = ''a.com'',
      Folder = ''mail'',
      Subject = ''Re: Q1'',
      FromName = [],
      FromEmail = [],
      ToName = ''Bob'',
      ToEmail = ''bob@example.com'',
      SentDate = [],
      IP = ''[1.2.3.4]'',
      URLs = ''http://a.com/x'' @ [CHR 0x0A] @ ''http://%zz/x'',
      OriginalFile = ''a.eml''\<rparr>"

text \<open>
  The record of the example message as the variant on enmime builds it.
\<close>

definition example_record_enmime :: EmailRecord where
  "example_record_enmime = example_record\<lparr>FromEmail := ''foo'', IP := ''1.2.3.4''\<rparr>"

text \<open>
  The example message without its \<open>Date\<close> field. For a field that is absent \<open>h.Date()\<close> of
  go-message returns the zero time and no error; enmime gives the empty string for the field.
\<close>

definition example_header_nodate :: "string \<Rightarrow> string" where
  "example_header_nodate key = (if key = ''Date'' then [] else example_header key)"

definition example_reader_nodate :: "example_time Reader" where
  "example_reader_nodate =
     example_reader\<lparr>h_Date := Inr example_zero_time, h_Get := example_header_nodate\<rparr>"

definition example_envelope_nodate :: Envelope where
  "example_envelope_nodate =
     \<lparr>Root_Header_Get = example_header_nodate, GetHeader = example_header_nodate,
      HTML = example_body2\<rparr>"

text \<open>The example message with two originating addresses, as enmime presents it.\<close>

definition example_envelope_two :: Envelope where
  "example_envelope_two =
     example_envelope
       \<lparr>Root_Header_Get :=
          (\<lambda>key. if key = ''X-Originating-IP'' then ''[1.1.1.1],[2.2.2.2]''
                 else example_header key)\<rparr>"

text \<open>
  The bytes of the example message as a file, a file that is not a message, and
  \<open>messageMail.CreateReader\<close> of the examples, which answers for these two files as the library
  does.
\<close>

definition example_message :: string where
  "example_message =
     Join [''Subject: Re: Q1'', ''From: foo'', ''To: Bob <bob@example.com>'', ''Date: yesterday'',
           ''X-Originating-IP: [1.2.3.4]'', ''MIME-Version: 1.0'',
           ''Content-Type: multipart/alternative; boundary=b'', [],
           ''--b'', ''Content-Type: text/plain'', [], ''hello'',
           ''--b'', ''Content-Type: text/html; charset=utf-8'', [], example_body2,
           ''--b--'', []]
       [CHR 0x0D, CHR 0x0A]"

definition example_CreateReader :: "string \<Rightarrow> error + example_time Reader" where
  "example_CreateReader f =
     (if f = example_message then Inr example_reader
      else Inl (Error ''malformed MIME header line''))"

text \<open>
  A run that asks for both renamings, with three candidate files of which the second is not a
  message; the copies go to another directory.
\<close>

definition example_options :: Options where
  "example_options =
     \<lparr>htmlOutDir = [], renameByHeader = True, renameByHeaderTo = ''out'', inputRoot = ''in''\<rparr>"

definition example_paths :: "string list" where
  "example_paths = [''in/a.eml'', ''in/bad.eml'', ''in/b.eml'']"

definition example_files :: filesystem where
  "example_files p =
     (if p = ''in/a.eml'' \<or> p = ''in/b.eml'' then Some example_message
      else if p = ''in/bad.eml'' then Some ''not a message''
      else None)"

definition example_schedule :: "goroutine list" where
  "example_schedule =
     [Main, Main, Main, Main, Worker 0, Worker 1, Worker 0, Worker 1, Worker 1, Worker 0,
      Worker 0, Worker 1, Worker 1, Worker 1, Worker 1, Worker 0, Worker 1, Main]"

definition example_run :: state where
  "example_run =
     follow example_library example_options
       (pipeline_gomessage example_library example_CreateReader) (length example_paths)
       example_schedule (initial example_paths 2 example_files)"

definition example_copy :: string where
  "example_copy = ''out/unknown Re_ Q1.eml''"

text \<open>
  A run that asks for the renaming in place, with two candidate files: a message, and a file
  that is not a message and has the name that the message is renamed to. In the first
  schedule the only worker takes the files one after the other; in the second there are two
  workers, and the second worker reads its file before the first renames.
\<close>

definition example_options_inplace :: Options where
  "example_options_inplace =
     \<lparr>htmlOutDir = [], renameByHeader = True, renameByHeaderTo = [], inputRoot = ''in''\<rparr>"

definition example_paths_inplace :: "string list" where
  "example_paths_inplace = [''in/a.eml'', ''in/unknown Re_ Q1.eml'']"

definition example_files_inplace :: filesystem where
  "example_files_inplace p =
     (if p = ''in/a.eml'' then Some example_message
      else if p = ''in/unknown Re_ Q1.eml'' then Some ''not a message''
      else None)"

definition example_schedule_one :: "goroutine list" where
  "example_schedule_one =
     [Main, Main, Main, Worker 0, Worker 0, Worker 0, Worker 0, Worker 0, Worker 0, Worker 0,
      Worker 0, Worker 0, Main]"

definition example_schedule_two :: "goroutine list" where
  "example_schedule_two =
     [Main, Main, Main, Worker 0, Worker 1, Worker 1, Worker 0, Worker 0, Worker 0, Worker 1,
      Worker 0, Worker 1, Main]"

definition example_run_one :: state where
  "example_run_one =
     follow example_library example_options_inplace
       (pipeline_gomessage example_library example_CreateReader) (length example_paths_inplace)
       example_schedule_one (initial example_paths_inplace 1 example_files_inplace)"

definition example_run_two :: state where
  "example_run_two =
     follow example_library example_options_inplace
       (pipeline_gomessage example_library example_CreateReader) (length example_paths_inplace)
       example_schedule_two (initial example_paths_inplace 2 example_files_inplace)"

text \<open>
  The records of the example message under the names of the candidate files, as the variant on
  go-message and the variant on enmime build them, and \<open>enmime.ReadEnvelope\<close> of the examples.
\<close>

definition example_record_at :: "string \<Rightarrow> EmailRecord" where
  "example_record_at name = example_record\<lparr>Folder := ''in'', OriginalFile := name\<rparr>"

definition example_record_enmime_at :: "string \<Rightarrow> EmailRecord" where
  "example_record_enmime_at name = example_record_enmime\<lparr>Folder := ''in'', OriginalFile := name\<rparr>"

definition example_ReadEnvelope :: "string \<Rightarrow> error + Envelope" where
  "example_ReadEnvelope f =
     (if f = example_message then Inr example_envelope
      else Inl (Error ''malformed MIME header line''))"

section \<open>Properties of the file name derivation\<close>

declare TrimLeftSpace.simps [simp del] TrimRightSpace.simps [simp del]
  urlRegex_FindAllString.simps [simp del] classRuns.simps [simp del]

lemma ReplaceAll_one: "ReplaceAll s old [c] = map (\<lambda>x. if x = old then c else x) s"
  by (induction s) (simp_all add: ReplaceAll_def)

lemma sanitizeFilename_map:
  "sanitizeFilename name = map (\<lambda>x. if x \<in> set invalidChars then CHR ''_'' else x) name"
  by (induction name) (simp_all add: sanitizeFilename_def invalidChars_def ReplaceAll_one)

lemma sanitizeFilename_clean: "set (sanitizeFilename name) \<inter> set invalidChars = {}"
proof -
  have "CHR ''_'' \<notin> set invalidChars"
    by (simp add: invalidChars_def)
  then show ?thesis
    by (auto simp: sanitizeFilename_map)
qed

lemma sanitizeFilename_idem: "sanitizeFilename (sanitizeFilename name) = sanitizeFilename name"
proof -
  have "CHR ''_'' \<notin> set invalidChars"
    by (simp add: invalidChars_def)
  then show ?thesis
    by (simp add: sanitizeFilename_map)
qed

lemma Split_no_sep: "sep \<notin> set s \<Longrightarrow> Split s sep = [s]"
  by (induction s) auto

text \<open>
  C10. A sent date that is not empty and holds no space is returned as it is: \<open>Split\<close> gives
  one piece, so neither the \<open>unknown\<close> branch nor the branch that joins with an underscore
  is taken. The result is the literal \<open>unknown\<close> only when that is the input itself.
\<close>

theorem formatTime_no_space:
  assumes "sentDate \<noteq> []" and "CHR '' '' \<notin> set sentDate"
  shows "formatTime sentDate = sentDate
         \<and> (formatTime sentDate = ''unknown'') = (sentDate = ''unknown'')"
  using assms by (simp add: formatTime_def Split_no_sep)

theorem formatTime_no_space_witness:
  "''2024-03-26'' \<noteq> [] \<and> CHR '' '' \<notin> set ''2024-03-26''
   \<and> formatTime ''2024-03-26'' = ''2024-03-26''
   \<and> formatTime ''2024-03-26'' \<noteq> ''unknown''"
  using formatTime_no_space [of "''2024-03-26''"] by simp

lemma sanitizeFilename_append:
  "sanitizeFilename (a @ b) = sanitizeFilename a @ sanitizeFilename b"
  by (simp add: sanitizeFilename_map)

text \<open>
  C4. The derived name depends on the sent date and the subject of the record only, so two
  derivations from the same record agree; sanitizing a sanitized name changes nothing; and
  the derived name holds none of the characters \<open>/ \ : * ? " < > |\<close>.
\<close>

theorem filename_derivation:
  "(SentDate r = SentDate r' \<and> Subject r = Subject r' \<longrightarrow> newName r = newName r')
   \<and> sanitizeFilename (sanitizeFilename name) = sanitizeFilename name
   \<and> sanitizeFilename (newName r) = newName r
   \<and> set (newName r) \<inter> set invalidChars = {}"
  by (simp add: newName_def sanitizeFilename_idem sanitizeFilename_clean)

theorem filename_derivation_witness:
  "SentDate (example_record\<lparr>SentDate := ''2024-03-26 15:30:15''\<rparr>)
     = SentDate (example_record\<lparr>SentDate := ''2024-03-26 15:30:15'', Folder := ''other''\<rparr>)
   \<and> Subject (example_record\<lparr>SentDate := ''2024-03-26 15:30:15''\<rparr>)
     = Subject (example_record\<lparr>SentDate := ''2024-03-26 15:30:15'', Folder := ''other''\<rparr>)
   \<and> newName (example_record\<lparr>SentDate := ''2024-03-26 15:30:15''\<rparr>)
     = newName (example_record\<lparr>SentDate := ''2024-03-26 15:30:15'', Folder := ''other''\<rparr>)
   \<and> newName (example_record\<lparr>SentDate := ''2024-03-26 15:30:15''\<rparr>)
     = ''2024-03-26_153015 Re_ Q1.eml''"
proof -
  have "newName (example_record\<lparr>SentDate := ''2024-03-26 15:30:15''\<rparr>)
        = ''2024-03-26_153015 Re_ Q1.eml''"
    by code_simp
  then show ?thesis
    using filename_derivation
      [of "example_record\<lparr>SentDate := ''2024-03-26 15:30:15''\<rparr>"
          "example_record\<lparr>SentDate := ''2024-03-26 15:30:15'', Folder := ''other''\<rparr>"]
    by simp
qed

section \<open>Properties of link extraction\<close>

lemma attrLoop_eq:
  "attrLoop attrs urls =
     urls @ map Val (filter (\<lambda>a. Key a = ''href'' \<and> HasPrefix (Val a) ''http'') attrs)"
  by (induction attrs arbitrary: urls) simp_all

lemma fold_crawler:
  assumes "\<And>c acc. c \<in> set cs \<Longrightarrow> crawler c acc = acc @ spec_collected c"
  shows "fold crawler cs acc = acc @ concat (map spec_collected cs)"
  using assms by (induction cs arbitrary: acc) simp_all

lemma spec_collected_Node:
  "spec_collected (Node ty data attrs cs) =
     spec_anchorHrefs (Node ty data attrs cs) @ concat (map spec_collected cs)"
proof -
  have "concat (map spec_anchorHrefs (concat (map spec_documentOrder cs)))
        = concat (map spec_collected cs)"
    by (induction cs) (simp_all add: spec_collected_def)
  then show ?thesis
    by (simp add: spec_collected_def)
qed

lemma crawler_eq: "crawler n urls = urls @ spec_collected n"
proof (induction n urls rule: crawler.induct)
  case (1 ty data attrs cs urls)
  have "\<And>c acc. c \<in> set cs \<Longrightarrow> crawler c acc = acc @ spec_collected c"
    using "1.IH" by simp
  then have "fold crawler cs acc = acc @ concat (map spec_collected cs)" for acc
    by (rule fold_crawler)
  then show ?case
    by (simp add: spec_collected_Node spec_anchorHrefs_def attrLoop_eq)
qed

lemma uniqueLoop_append: "uniqueLoop (xs @ ys) st = uniqueLoop ys (uniqueLoop xs st)"
  by (induction xs st rule: uniqueLoop.induct) simp_all

lemma spec_firstOccurrences_snoc:
  "spec_firstOccurrences (xs @ [x]) =
     spec_firstOccurrences xs @ (if x \<in> set xs then [] else [x])"
proof -
  have "filter (\<lambda>i. (xs @ [x]) ! i \<notin> set (take i (xs @ [x]))) [0..<length xs]
        = filter (\<lambda>i. xs ! i \<notin> set (take i xs)) [0..<length xs]"
    by (rule filter_cong) (auto simp: nth_append)
  moreover have "map (\<lambda>i. (xs @ [x]) ! i) (filter (\<lambda>i. xs ! i \<notin> set (take i xs)) [0..<length xs])
        = map (\<lambda>i. xs ! i) (filter (\<lambda>i. xs ! i \<notin> set (take i xs)) [0..<length xs])"
    by (rule map_cong) (auto simp: nth_append)
  ultimately show ?thesis
    by (simp add: spec_firstOccurrences_def)
qed

lemma uniqueLoop_spec:
  "uniqueLoop xs ({}, []) = (set xs, spec_firstOccurrences xs)"
proof (induction xs rule: rev_induct)
  case Nil
  show ?case by (simp add: spec_firstOccurrences_def)
next
  case (snoc x xs)
  then show ?case
    by (simp add: uniqueLoop_append spec_firstOccurrences_snoc insert_absorb)
qed

lemma spec_firstOccurrences_Nil: "spec_firstOccurrences [] = []"
  by (simp add: spec_firstOccurrences_def)

lemma set_spec_firstOccurrences: "set (spec_firstOccurrences xs) = set xs"
  by (induction xs rule: rev_induct)
     (auto simp: spec_firstOccurrences_snoc spec_firstOccurrences_Nil)

lemma distinct_spec_firstOccurrences: "distinct (spec_firstOccurrences xs)"
  by (induction xs rule: rev_induct)
     (auto simp: spec_firstOccurrences_snoc set_spec_firstOccurrences spec_firstOccurrences_Nil)

text \<open>
  C2. Whenever \<open>html.Parse\<close> returns a tree, the result of \<open>extractUrls\<close> has no duplicates. On
  the path through the tree (the text is not blank) the result is the \<open>href\<close> values of the
  anchor elements that start with \<open>http\<close>, collected in document order and reduced to their
  first occurrences, so it has the same members as the collected list. A blank text is not
  parsed and gives the empty list.
\<close>

theorem extractUrls_primary:
  assumes "html_Parse htmlContent = Inr doc"
  shows "distinct (extractUrls html_Parse htmlContent)
         \<and> (TrimSpace htmlContent \<noteq> [] \<longrightarrow>
              extractUrls html_Parse htmlContent = spec_firstOccurrences (spec_collected doc)
              \<and> set (extractUrls html_Parse htmlContent) = set (spec_collected doc))
         \<and> (TrimSpace htmlContent = [] \<longrightarrow> extractUrls html_Parse htmlContent = [])"
  using assms
  by (simp add: extractUrls_def crawler_eq uniqueLoop_spec
      set_spec_firstOccurrences distinct_spec_firstOccurrences)

theorem extractUrls_primary_witness:
  "TrimSpace example_body \<noteq> []
   \<and> example_html_Parse example_body =
       Inr (example_document
              [example_anchor ''http://a.com/x'' ''x'', example_anchor ''http://a.com/x'' ''dup'',
               example_anchor ''mailto:y@z.com'' ''skip''])
   \<and> extractUrls example_html_Parse example_body = [''http://a.com/x'']
   \<and> urlDomainsLoop example_url_Parse (extractUrls example_html_Parse example_body) [] = [''a.com'']"
proof -
  let ?doc = "example_document
              [example_anchor ''http://a.com/x'' ''x'', example_anchor ''http://a.com/x'' ''dup'',
               example_anchor ''mailto:y@z.com'' ''skip'']"
  have a: "TrimSpace example_body \<noteq> []"
    by code_simp
  have b: "example_html_Parse example_body = Inr ?doc"
    by (simp add: example_html_Parse_def)
  have c: "spec_firstOccurrences (spec_collected ?doc) = [''http://a.com/x'']"
    by code_simp
  have d: "urlDomainsLoop example_url_Parse [''http://a.com/x''] [] = [''a.com'']"
    by (simp add: example_url_Parse_def)
  have "extractUrls example_html_Parse example_body = spec_firstOccurrences (spec_collected ?doc)"
    using extractUrls_primary [where html_Parse = example_html_Parse, OF b] a by blast
  with c d a b show ?thesis
    by simp
qed

lemma TrimLeftSpace_split: "\<exists>p. s = p @ TrimLeftSpace s \<and> set p \<subseteq> spaceBytes"
proof (induction s rule: TrimLeftSpace.induct)
  case (1 s)
  show ?case
  proof (cases "find (\<lambda>q. prefix q s) spaceRunes")
    case None
    then have "TrimLeftSpace s = s"
      by (simp add: TrimLeftSpace.simps)
    then show ?thesis by simp
  next
    case (Some q)
    then have q: "q \<in> set spaceRunes" "prefix q s"
      by (auto simp: find_Some_iff)
    from "1.IH" [OF Some] obtain p where
      p: "drop (length q) s = p @ TrimLeftSpace (drop (length q) s)" "set p \<subseteq> spaceBytes"
      by blast
    have "TrimLeftSpace s = TrimLeftSpace (drop (length q) s)"
      using Some by (subst TrimLeftSpace.simps) simp
    moreover have "s = q @ drop (length q) s"
      using q(2) by (auto simp: prefix_def)
    moreover have "set q \<subseteq> spaceBytes"
      using q(1) by (auto simp: spaceBytes_def)
    ultimately have "s = (q @ p) @ TrimLeftSpace s \<and> set (q @ p) \<subseteq> spaceBytes"
      using p by (metis append.assoc Un_subset_iff set_append)
    then show ?thesis by blast
  qed
qed

lemma TrimRightSpace_Nil: "TrimRightSpace s = [] \<Longrightarrow> set s \<subseteq> spaceBytes"
proof (induction s rule: TrimRightSpace.induct)
  case (1 s)
  show ?case
  proof (cases "find (\<lambda>q. suffix q s) spaceRunes")
    case None
    then have "TrimRightSpace s = s"
      by (simp add: TrimRightSpace.simps)
    with "1.prems" show ?thesis by simp
  next
    case (Some q)
    then have q: "q \<in> set spaceRunes" "suffix q s"
      by (auto simp: find_Some_iff)
    have "TrimRightSpace s = TrimRightSpace (take (length s - length q) s)"
      using Some by (subst TrimRightSpace.simps) simp
    with "1.prems" "1.IH" [OF Some]
    have "set (take (length s - length q) s) \<subseteq> spaceBytes"
      by simp
    moreover have "s = take (length s - length q) s @ q"
      using q(2) by (auto simp: suffix_def)
    moreover have "set q \<subseteq> spaceBytes"
      using q(1) by (auto simp: spaceBytes_def)
    ultimately show ?thesis
      by (metis Un_subset_iff set_append)
  qed
qed

lemma TrimSpace_Nil: "TrimSpace s = [] \<Longrightarrow> set s \<subseteq> spaceBytes"
proof -
  assume a: "TrimSpace s = []"
  obtain p where p: "s = p @ TrimLeftSpace s" "set p \<subseteq> spaceBytes"
    using TrimLeftSpace_split by blast
  have "set (TrimLeftSpace s) \<subseteq> spaceBytes"
    using a by (simp add: TrimSpace_def TrimRightSpace_Nil)
  with p show ?thesis
    by (metis Un_subset_iff set_append)
qed

lemma h_not_space: "CHR ''h'' \<notin> spaceBytes"
  by (simp add: spaceBytes_def spaceRunes_def)

lemma urlRegex_at_h: "urlRegex_at s = Some m \<Longrightarrow> \<exists>t. s = CHR ''h'' # t"
  by (cases s) (auto simp: urlRegex_at_def HasPrefix_def Let_def split: if_splits)

lemma FindAllString_no_h: "CHR ''h'' \<notin> set s \<Longrightarrow> urlRegex_FindAllString s = []"
proof (induction s)
  case Nil
  show ?case by (simp add: urlRegex_FindAllString.simps)
next
  case (Cons c cs)
  have "urlRegex_at (c # cs) = None"
  proof (cases "urlRegex_at (c # cs)")
    case (Some m)
    with urlRegex_at_h [OF Some] Cons.prems show ?thesis by simp
  qed simp
  with Cons show ?case
    by (simp add: urlRegex_FindAllString.simps)
qed

lemma FindAllString_blank: "TrimSpace s = [] \<Longrightarrow> urlRegex_FindAllString s = []"
  using TrimSpace_Nil [of s] h_not_space by (auto intro: FindAllString_no_h)

lemma takeWhile_run:
  "s = takeWhile P s @ dropWhile P s \<and> list_all P (takeWhile P s)
   \<and> (dropWhile P s = [] \<or> \<not> P (hd (dropWhile P s)))"
proof -
  have "dropWhile P s = [] \<or> \<not> P (hd (dropWhile P s))"
    using hd_dropWhile [of P s] by blast
  then show ?thesis
    by (auto simp: list_all_iff dest: set_takeWhileD)
qed

lemma run_takeWhile:
  assumes "list_all P run" and "rest = [] \<or> \<not> P (hd rest)"
  shows "takeWhile P (run @ rest) = run"
  using assms by (cases rest) (auto simp: list_all_iff)

lemma scheme_match:
  assumes "HasPrefix s sch" and "sch = ''http://'' \<or> sch = ''https://''"
    and "takeWhile urlChar (drop (length sch) s) \<noteq> []"
  shows "spec_urlMatch s (sch @ takeWhile urlChar (drop (length sch) s))"
proof -
  let ?t = "drop (length sch) s"
  have "s = sch @ ?t"
    using assms(1) by (metis HasPrefix_def append_take_drop_id)
  then have "s = (sch @ takeWhile urlChar ?t) @ dropWhile urlChar ?t"
    by (metis append.assoc takeWhile_dropWhile_id)
  with assms(2,3) takeWhile_run [of ?t urlChar] show ?thesis
    unfolding spec_urlMatch_def by blast
qed

lemma urlRegex_at_spec: "urlRegex_at s = Some m \<longleftrightarrow> spec_urlMatch s m"
proof
  assume a: "urlRegex_at s = Some m"
  show "spec_urlMatch s m"
  proof (cases "HasPrefix s ''https://''")
    case True
    with a scheme_match [of s "''https://''"] show ?thesis
      by (simp add: urlRegex_at_def Let_def split: if_splits)
  next
    case False
    with a scheme_match [of s "''http://''"] show ?thesis
      by (simp add: urlRegex_at_def Let_def split: if_splits)
  qed
next
  assume "spec_urlMatch s m"
  then obtain run rest where r: "run \<noteq> []" "list_all urlChar run"
      "m = ''http://'' @ run \<or> m = ''https://'' @ run" "s = m @ rest"
      "rest = [] \<or> \<not> urlChar (hd rest)"
    unfolding spec_urlMatch_def by blast
  have tw: "takeWhile urlChar (run @ rest) = run"
    using r(2,5) by (rule run_takeWhile)
  from r(3) show "urlRegex_at s = Some m"
  proof
    assume "m = ''http://'' @ run"
    with r tw show ?thesis
      by (simp add: urlRegex_at_def HasPrefix_def Let_def)
  next
    assume "m = ''https://'' @ run"
    with r tw show ?thesis
      by (simp add: urlRegex_at_def HasPrefix_def Let_def)
  qed
qed

lemma urlRegex_at_prefix: "urlRegex_at s = Some m \<Longrightarrow> m \<noteq> [] \<and> s = m @ drop (length m) s"
  by (auto simp: urlRegex_at_spec spec_urlMatch_def)

lemma spec_allMatches_Cons:
  assumes "spec_allMatches cs ms" and "urlRegex_at (c # cs) = None"
  shows "spec_allMatches (c # cs) ms"
  using assms(1)
proof (cases rule: spec_allMatches.cases)
  case none
  have "\<not> (\<exists>m. spec_urlMatch (drop i (c # cs)) m)" if "i < length (c # cs)" for i
    using that none(2) [of "i - 1"] assms(2)
    by (cases i) (auto simp: urlRegex_at_spec [symmetric])
  then show ?thesis
    unfolding none(1) by (rule spec_allMatches.none)
next
  case (more gap m rest ms')
  have "\<not> (\<exists>m'. spec_urlMatch (drop i ((c # gap) @ m @ rest)) m')" if "i < length (c # gap)" for i
    using that more(3) [of "i - 1"] assms(2) more(1)
    by (cases i) (auto simp: urlRegex_at_spec [symmetric])
  then have "spec_allMatches ((c # gap) @ m @ rest) (m # ms')"
    using more(4,5) by (rule spec_allMatches.more)
  then show ?thesis
    using more(1,2) by simp
qed

lemma FindAllString_Nil: "urlRegex_FindAllString [] = []"
  by (simp add: urlRegex_FindAllString.simps)

lemma FindAllString_None:
  "urlRegex_at (c # cs) = None \<Longrightarrow> urlRegex_FindAllString (c # cs) = urlRegex_FindAllString cs"
  by (subst urlRegex_FindAllString.simps) simp

lemma FindAllString_Some:
  assumes "urlRegex_at s = Some m"
  shows "urlRegex_FindAllString s = m # urlRegex_FindAllString (drop (length m) s)"
proof (cases s)
  case Nil
  with assms show ?thesis
    by (simp add: urlRegex_at_def HasPrefix_def)
next
  case (Cons c cs)
  with assms show ?thesis
    by (subst urlRegex_FindAllString.simps) simp
qed

lemma FindAllString_allMatches: "spec_allMatches s (urlRegex_FindAllString s)"
proof (induction s rule: urlRegex_FindAllString.induct)
  case (1 s)
  show ?case
  proof (cases s)
    case Nil
    then show ?thesis
      by (auto simp: FindAllString_Nil intro: spec_allMatches.none)
  next
    case (Cons c cs)
    show ?thesis
    proof (cases "urlRegex_at s")
      case None
      have "spec_allMatches cs (urlRegex_FindAllString cs)"
        by (rule "1.IH"(1) [OF Cons None])
      then have "spec_allMatches (c # cs) (urlRegex_FindAllString cs)"
        using None Cons by (intro spec_allMatches_Cons) simp_all
      moreover have "urlRegex_FindAllString (c # cs) = urlRegex_FindAllString cs"
        using None Cons by (intro FindAllString_None) simp
      ultimately show ?thesis
        using Cons by simp
    next
      case (Some m)
      let ?rest = "drop (length m) s"
      have s: "s = m @ ?rest"
        using urlRegex_at_prefix [OF Some] by simp
      have "spec_allMatches ?rest (urlRegex_FindAllString ?rest)"
        by (rule "1.IH"(2) [OF Cons Some])
      moreover have "spec_urlMatch (m @ ?rest) m"
        using Some s by (metis urlRegex_at_spec)
      ultimately have "spec_allMatches ([] @ m @ ?rest) (m # urlRegex_FindAllString ?rest)"
        by (intro spec_allMatches.more) simp_all
      then have "spec_allMatches s (m # urlRegex_FindAllString ?rest)"
        using s by (metis append_Nil)
      then show ?thesis
        by (simp add: FindAllString_Some [OF Some])
    qed
  qed
qed

lemma FindAllString_none:
  "(\<And>i. i < length s \<Longrightarrow> urlRegex_at (drop i s) = None) \<Longrightarrow> urlRegex_FindAllString s = []"
proof (induction s)
  case Nil
  show ?case by (rule FindAllString_Nil)
next
  case (Cons c cs)
  have "urlRegex_at (c # cs) = None"
    using Cons.prems [of 0] by simp
  moreover have "urlRegex_FindAllString cs = []"
  proof (rule Cons.IH)
    fix i assume "i < length cs"
    then show "urlRegex_at (drop i cs) = None"
      using Cons.prems [of "Suc i"] by simp
  qed
  ultimately show ?case
    by (simp add: FindAllString_None)
qed

lemma FindAllString_gap:
  assumes "\<And>i. i < length gap \<Longrightarrow> urlRegex_at (drop i (gap @ m @ rest)) = None"
    and "urlRegex_at (m @ rest) = Some m"
  shows "urlRegex_FindAllString (gap @ m @ rest) = m # urlRegex_FindAllString rest"
  using assms(1)
proof (induction gap)
  case Nil
  show ?case
    using FindAllString_Some [OF assms(2)] by simp
next
  case (Cons g gs)
  have "urlRegex_at (g # gs @ m @ rest) = None"
    using Cons.prems [of 0] by simp
  moreover have "urlRegex_FindAllString (gs @ m @ rest) = m # urlRegex_FindAllString rest"
  proof (rule Cons.IH)
    fix i assume "i < length gs"
    then show "urlRegex_at (drop i (gs @ m @ rest)) = None"
      using Cons.prems [of "Suc i"] by simp
  qed
  ultimately show ?case
    by (simp add: FindAllString_None)
qed

lemma allMatches_unique: "spec_allMatches s ms \<Longrightarrow> ms = urlRegex_FindAllString s"
proof (induction rule: spec_allMatches.induct)
  case (none s)
  have "urlRegex_FindAllString s = []"
  proof (rule FindAllString_none)
    fix i assume "i < length s"
    with none [of i] show "urlRegex_at (drop i s) = None"
      by (cases "urlRegex_at (drop i s)") (auto simp: urlRegex_at_spec)
  qed
  then show ?case by simp
next
  case (more gap m rest ms)
  have "urlRegex_FindAllString (gap @ m @ rest) = m # urlRegex_FindAllString rest"
  proof (rule FindAllString_gap)
    fix i assume "i < length gap"
    with more(1) [of i] show "urlRegex_at (drop i (gap @ m @ rest)) = None"
      by (cases "urlRegex_at (drop i (gap @ m @ rest))") (auto simp: urlRegex_at_spec)
  next
    show "urlRegex_at (m @ rest) = Some m"
      using more(2) by (simp add: urlRegex_at_spec)
  qed
  with more(4) show ?case by simp
qed

text \<open>
  C6. When \<open>html.Parse\<close> fails, \<open>extractUrls\<close> returns what the pattern finds in the raw text:
  the matches of \<open>http\<close> or \<open>https\<close>, \<open>://\<close> and a longest run of bytes that are neither white
  space of the pattern nor quotes, left to right, and nothing else. Duplicates stay, as the
  example with the same link twice shows.
\<close>

theorem extractUrls_fallback:
  assumes "html_Parse htmlContent = Inl err"
  shows "extractUrls html_Parse htmlContent = urlRegex_FindAllString htmlContent
         \<and> spec_allMatches htmlContent (extractUrls html_Parse htmlContent)
         \<and> (\<forall>ms. spec_allMatches htmlContent ms \<longrightarrow> ms = extractUrls html_Parse htmlContent)"
proof -
  have eq: "extractUrls html_Parse htmlContent = urlRegex_FindAllString htmlContent"
  proof (cases "TrimSpace htmlContent = []")
    case True
    then show ?thesis
      by (simp add: extractUrls_def FindAllString_blank)
  next
    case False
    with assms show ?thesis
      by (simp add: extractUrls_def)
  qed
  have "spec_allMatches htmlContent (urlRegex_FindAllString htmlContent)"
    by (rule FindAllString_allMatches)
  moreover have "\<forall>ms. spec_allMatches htmlContent ms \<longrightarrow> ms = urlRegex_FindAllString htmlContent"
    by (blast dest: allMatches_unique)
  ultimately show ?thesis
    unfolding eq by blast
qed

theorem extractUrls_fallback_witness:
  "(\<lambda>h. Inl (Error ''html: parse error'') :: error + Node) ''http://a.b/c x http://a.b/c''
     = Inl (Error ''html: parse error'')
   \<and> extractUrls (\<lambda>h. Inl (Error ''html: parse error'')) ''http://a.b/c x http://a.b/c''
     = [''http://a.b/c'', ''http://a.b/c'']
   \<and> \<not> distinct (extractUrls (\<lambda>h. Inl (Error ''html: parse error'')) ''http://a.b/c x http://a.b/c'')
   \<and> spec_allMatches ''http://a.b/c x http://a.b/c'' [''http://a.b/c'', ''http://a.b/c'']"
proof -
  have a: "urlRegex_FindAllString ''http://a.b/c x http://a.b/c'' = [''http://a.b/c'', ''http://a.b/c'']"
    by code_simp
  have b: "extractUrls (\<lambda>h. Inl (Error ''html: parse error'')) ''http://a.b/c x http://a.b/c''
             = urlRegex_FindAllString ''http://a.b/c x http://a.b/c''"
    and c: "spec_allMatches ''http://a.b/c x http://a.b/c''
             (extractUrls (\<lambda>h. Inl (Error ''html: parse error'')) ''http://a.b/c x http://a.b/c'')"
    using extractUrls_fallback
         [of "\<lambda>h. Inl (Error ''html: parse error'')" "''http://a.b/c x http://a.b/c''"
             "Error ''html: parse error''"]
    by blast+
  from c show ?thesis
    unfolding b a by simp
qed

section \<open>Properties of the record\<close>

lemma urlDomainsLoop_eq:
  "urlDomainsLoop url_Parse urls acc =
     acc @ map (\<lambda>u. Host (projr (url_Parse u))) (filter (\<lambda>u. \<not> isl (url_Parse u)) urls)"
  by (induction urls arbitrary: acc) (auto split: sum.splits)

lemma length_filter_eq_iff: "length (filter P xs) = length xs \<longleftrightarrow> (\<forall>x\<in>set xs. P x)"
  by (metis filter_True length_filter_less less_irrefl filter_id_conv)

lemma processEmlFile_Inr:
  assumes "processEmlFile lib CreateReader filePath = Inr (record, htmlContent)"
  shows "\<exists>mr. CreateReader filePath = Inr mr \<and> partsLoop (NextPart mr) = Inr htmlContent
    \<and> URLs record = Join (extractUrls (htmlParse lib) htmlContent) [CHR 0x0A]
    \<and> URLDomains record =
        Join (urlDomainsLoop (urlParse lib) (extractUrls (htmlParse lib) htmlContent) []) [CHR 0x0A]
    \<and> IP record = ReplaceAll (h_Get mr ''X-Originating-IP'') (CHR '','') [CHR 0x0A]
    \<and> SentDate record = (case h_Date mr of Inr date \<Rightarrow> timeFormat lib date | Inl err \<Rightarrow> [])
    \<and> (FromName record, FromEmail record) = firstAddress (h_AddressList mr ''From'')
    \<and> (ToName record, ToEmail record) = firstAddress (h_AddressList mr ''To'')"
  using assms
  by (auto simp: processEmlFile_def Let_def split: sum.splits prod.splits)

text \<open>
  C1. For a file that is processed, the record holds the URL list and the domain list joined
  by line feeds; the domain list is the hosts of the URLs that \<open>url.Parse\<close> accepts, in the
  order of those URLs, so it is at most as long as the URL list, and it is shorter exactly
  when \<open>url.Parse\<close> rejects some URL of the list (which stays in the URL list).
\<close>

theorem urlDomains_of_urls:
  assumes "processEmlFile lib CreateReader filePath = Inr (record, htmlContent)"
  shows "URLs record = Join (extractUrls (htmlParse lib) htmlContent) [CHR 0x0A]
    \<and> URLDomains record =
        Join (urlDomainsLoop (urlParse lib) (extractUrls (htmlParse lib) htmlContent) []) [CHR 0x0A]
    \<and> length (urlDomainsLoop (urlParse lib) (extractUrls (htmlParse lib) htmlContent) [])
        \<le> length (extractUrls (htmlParse lib) htmlContent)
    \<and> urlDomainsLoop (urlParse lib) (extractUrls (htmlParse lib) htmlContent) [] =
        map (\<lambda>u. Host (projr (urlParse lib u)))
          (filter (\<lambda>u. \<not> isl (urlParse lib u)) (extractUrls (htmlParse lib) htmlContent))
    \<and> (length (urlDomainsLoop (urlParse lib) (extractUrls (htmlParse lib) htmlContent) [])
          \<noteq> length (extractUrls (htmlParse lib) htmlContent)
        \<longleftrightarrow> (\<exists>u \<in> set (extractUrls (htmlParse lib) htmlContent). isl (urlParse lib u)))"
proof -
  let ?urls = "extractUrls (htmlParse lib) htmlContent"
  have "length (filter (\<lambda>u. \<not> isl (urlParse lib u)) ?urls) \<noteq> length ?urls
        \<longleftrightarrow> (\<exists>u \<in> set ?urls. isl (urlParse lib u))"
    by (auto simp: length_filter_eq_iff)
  then show ?thesis
    using processEmlFile_Inr [OF assms] by (auto simp: urlDomainsLoop_eq)
qed

theorem urlDomains_of_urls_witness:
  "processEmlFile example_library (\<lambda>p. Inr example_reader) ''mail/a.eml''
     = Inr (example_record, example_body2)
   \<and> extractUrls (htmlParse example_library) example_body2 = [''http://a.com/x'', ''http://%zz/x'']
   \<and> urlDomainsLoop (urlParse example_library)
         (extractUrls (htmlParse example_library) example_body2) [] = [''a.com'']
   \<and> isl (urlParse example_library ''http://%zz/x'')
   \<and> URLDomains example_record = ''a.com''"
proof -
  have a: "processEmlFile example_library (\<lambda>p. Inr example_reader) ''mail/a.eml''
           = Inr (example_record, example_body2)"
    by code_simp
  have b: "extractUrls (htmlParse example_library) example_body2 = [''http://a.com/x'', ''http://%zz/x'']"
    by code_simp
  have c: "isl (urlParse example_library ''http://%zz/x'')"
    by code_simp
  have d: "URLDomains example_record = ''a.com''"
    by (simp add: example_record_def)
  have e: "map (\<lambda>u. Host (projr (urlParse example_library u)))
             (filter (\<lambda>u. \<not> isl (urlParse example_library u)) [''http://a.com/x'', ''http://%zz/x''])
           = [''a.com'']"
    by code_simp
  have "urlDomainsLoop (urlParse example_library)
          (extractUrls (htmlParse example_library) example_body2) [] =
        map (\<lambda>u. Host (projr (urlParse example_library u)))
          (filter (\<lambda>u. \<not> isl (urlParse example_library u))
             (extractUrls (htmlParse example_library) example_body2))"
    using urlDomains_of_urls [OF a] by blast
  then have "urlDomainsLoop (urlParse example_library)
          (extractUrls (htmlParse example_library) example_body2) [] = [''a.com'']"
    unfolding b e .
  with a b c d show ?thesis
    by blast
qed

lemma newName_unknown:
  "SentDate record = [] \<Longrightarrow> newName record = ''unknown '' @ sanitizeFilename (Subject record) @ ''.eml''"
  by (simp add: newName_def Sprintf_eml_def formatTime_def sanitizeFilename_append)
     (simp add: sanitizeFilename_map invalidChars_def)

lemma processEmlFile_enmime_Inr:
  assumes "ReadEnvelope filePath = Inr env"
  shows "\<exists>record. processEmlFile_enmime lib ReadEnvelope filePath = Inr (record, HTML env)
    \<and> IP record = ReplaceAll (Trim (Root_Header_Get env ''X-Originating-IP'') ''[]'') (CHR '','') [CHR 0x0A]
    \<and> SentDate record =
        (if Root_Header_Get env ''Date'' \<noteq> []
         then (case mailParseDate lib (Root_Header_Get env ''Date'') of
                 Inr t \<Rightarrow> timeFormat lib t | Inl err \<Rightarrow> [])
         else [])
    \<and> (FromName record, FromEmail record) = parseAddress (mailParseAddress lib) (Root_Header_Get env ''From'')
    \<and> (ToName record, ToEmail record) = parseAddress (mailParseAddress lib) (Root_Header_Get env ''To'')"
  using assms
  by (auto simp: processEmlFile_enmime_def Let_def split: sum.splits prod.splits)

lemma processEmlFile_total:
  assumes "CreateReader filePath = Inr mr" and "partsLoop (NextPart mr) = Inr htmlContent"
  shows "\<exists>record. processEmlFile lib CreateReader filePath = Inr (record, htmlContent)"
  using assms
  by (auto simp: processEmlFile_def Let_def split: sum.splits prod.splits)

text \<open>
  When the date of a message is not available (the reader of go-message returns an error for
  \<open>h.Date()\<close>; with enmime the \<open>Date\<close> field is empty or \<open>mail.ParseDate\<close> rejects it), the
  file is still processed, the sent date of the record is empty, and the derived file name
  starts with \<open>unknown\<close> and a space.
\<close>

lemma sentDate_unavailable:
  "(CreateReader filePath = Inr mr \<and> partsLoop (NextPart mr) = Inr htmlContent
      \<and> h_Date mr = Inl err
    \<longrightarrow> (\<exists>record. processEmlFile lib CreateReader filePath = Inr (record, htmlContent)
          \<and> SentDate record = [] \<and> formatTime (SentDate record) = ''unknown''
          \<and> newName record = ''unknown '' @ sanitizeFilename (Subject record) @ ''.eml''))
   \<and> (ReadEnvelope filePath = Inr env
      \<and> (Root_Header_Get env ''Date'' = []
          \<or> mailParseDate lib (Root_Header_Get env ''Date'') = Inl err)
    \<longrightarrow> (\<exists>record. processEmlFile_enmime lib ReadEnvelope filePath = Inr (record, HTML env)
          \<and> SentDate record = [] \<and> formatTime (SentDate record) = ''unknown''
          \<and> newName record = ''unknown '' @ sanitizeFilename (Subject record) @ ''.eml''))"
proof (intro conjI impI)
  assume a: "CreateReader filePath = Inr mr \<and> partsLoop (NextPart mr) = Inr htmlContent
      \<and> h_Date mr = Inl err"
  then obtain rec where r: "processEmlFile lib CreateReader filePath = Inr (rec, htmlContent)"
    using processEmlFile_total by blast
  from processEmlFile_Inr [OF r] a have "SentDate rec = []"
    by auto
  with r show "\<exists>record. processEmlFile lib CreateReader filePath = Inr (record, htmlContent)
          \<and> SentDate record = [] \<and> formatTime (SentDate record) = ''unknown''
          \<and> newName record = ''unknown '' @ sanitizeFilename (Subject record) @ ''.eml''"
    using newName_unknown [of rec] by (auto simp: formatTime_def)
next
  assume a: "ReadEnvelope filePath = Inr env
      \<and> (Root_Header_Get env ''Date'' = []
          \<or> mailParseDate lib (Root_Header_Get env ''Date'') = Inl err)"
  then obtain rec where r: "processEmlFile_enmime lib ReadEnvelope filePath = Inr (rec, HTML env)"
    and d: "SentDate rec =
        (if Root_Header_Get env ''Date'' \<noteq> []
         then (case mailParseDate lib (Root_Header_Get env ''Date'') of
                 Inr t \<Rightarrow> timeFormat lib t | Inl err \<Rightarrow> [])
         else [])"
    using processEmlFile_enmime_Inr [of ReadEnvelope filePath env lib] by blast
  from d a have "SentDate rec = []"
    by auto
  with r show "\<exists>record. processEmlFile_enmime lib ReadEnvelope filePath = Inr (record, HTML env)
          \<and> SentDate record = [] \<and> formatTime (SentDate record) = ''unknown''
          \<and> newName record = ''unknown '' @ sanitizeFilename (Subject record) @ ''.eml''"
    using newName_unknown [of rec] by (auto simp: formatTime_def)
qed

text \<open>
  C5. The variant on enmime looks at the \<open>Date\<close> field itself and leaves the sent date empty
  when the field is empty or does not parse. The variant on go-message has no such test: it
  formats whatever time \<open>h.Date()\<close> returns without an error, and for a message without a
  \<open>Date\<close> field that is the zero time. So for the example message without its \<open>Date\<close> field
  the sent date is \<open>0001-01-01 00:00:00\<close> and the derived name starts with
  \<open>0001-01-01_000000\<close>, where the variant on enmime gives the empty date and \<open>unknown\<close>.
\<close>

theorem missing_date_zero_time:
  "h_Get example_reader_nodate ''Date'' = []
   \<and> h_Date example_reader_nodate = Inr example_zero_time
   \<and> timeFormat example_library example_zero_time = ''0001-01-01 00:00:00''
   \<and> processEmlFile example_library (\<lambda>p. Inr example_reader_nodate) ''mail/a.eml''
       = Inr (example_record\<lparr>SentDate := ''0001-01-01 00:00:00''\<rparr>, example_body2)
   \<and> formatTime ''0001-01-01 00:00:00'' = ''0001-01-01_000000''
   \<and> newName (example_record\<lparr>SentDate := ''0001-01-01 00:00:00''\<rparr>)
       = ''0001-01-01_000000 Re_ Q1.eml''
   \<and> Root_Header_Get example_envelope_nodate ''Date'' = []
   \<and> processEmlFile_enmime example_library (\<lambda>p. Inr example_envelope_nodate) ''mail/a.eml''
       = Inr (example_record_enmime, example_body2)
   \<and> SentDate example_record_enmime = []
   \<and> newName example_record_enmime = ''unknown Re_ Q1.eml''"
proof -
  have a: "h_Get example_reader_nodate ''Date'' = []"
    by code_simp
  have b: "h_Date example_reader_nodate = Inr example_zero_time"
    by (simp add: example_reader_nodate_def)
  have c: "timeFormat example_library example_zero_time = ''0001-01-01 00:00:00''"
    by code_simp
  have d: "processEmlFile example_library (\<lambda>p. Inr example_reader_nodate) ''mail/a.eml''
       = Inr (example_record\<lparr>SentDate := ''0001-01-01 00:00:00''\<rparr>, example_body2)"
    by code_simp
  have e: "formatTime ''0001-01-01 00:00:00'' = ''0001-01-01_000000''"
    by code_simp
  have f: "newName (example_record\<lparr>SentDate := ''0001-01-01 00:00:00''\<rparr>)
       = ''0001-01-01_000000 Re_ Q1.eml''"
    by code_simp
  have g: "Root_Header_Get example_envelope_nodate ''Date'' = []"
    by code_simp
  have h: "processEmlFile_enmime example_library (\<lambda>p. Inr example_envelope_nodate) ''mail/a.eml''
       = Inr (example_record_enmime, example_body2)"
    by code_simp
  have i: "SentDate example_record_enmime = []"
    by code_simp
  have j: "newName example_record_enmime = ''unknown Re_ Q1.eml''"
    by code_simp
  show ?thesis
    by (intro conjI a b c d e f g h i j)
qed

section \<open>Originating address and sender fields of the record\<close>

text \<open>
  C7. The variants on enmime pass the \<open>X-Originating-IP\<close> value through
  \<open>strings.Trim(.., "[]")\<close> before the commas are replaced; the variants on go-message,
  among them the one the worker pool runs, replace the commas only. For the value
  \<open>[1.2.3.4]\<close> the record of the variant on go-message keeps the brackets, where the
  specification and the variant on enmime give \<open>1.2.3.4\<close>. \<open>strings.Trim\<close> takes bracket
  characters from the two ends of the value only: for \<open>[1.1.1.1],[2.2.2.2]\<close> the variant on
  enmime keeps the two brackets in the middle.
\<close>

theorem originatingIP_brackets_kept:
  "h_Get example_reader ''X-Originating-IP'' = ''[1.2.3.4]''
   \<and> processEmlFile example_library (\<lambda>p. Inr example_reader) ''mail/a.eml''
       = Inr (example_record, example_body2)
   \<and> IP example_record = ''[1.2.3.4]''
   \<and> spec_originatingIP ''[1.2.3.4]'' = ''1.2.3.4''
   \<and> IP example_record \<noteq> spec_originatingIP (h_Get example_reader ''X-Originating-IP'')
   \<and> Root_Header_Get example_envelope ''X-Originating-IP'' = ''[1.2.3.4]''
   \<and> processEmlFile_enmime example_library (\<lambda>p. Inr example_envelope) ''mail/a.eml''
       = Inr (example_record_enmime, example_body2)
   \<and> IP example_record_enmime = ''1.2.3.4''
   \<and> Root_Header_Get example_envelope_two ''X-Originating-IP'' = ''[1.1.1.1],[2.2.2.2]''
   \<and> processEmlFile_enmime example_library (\<lambda>p. Inr example_envelope_two) ''mail/a.eml''
       = Inr (example_record_enmime\<lparr>IP := ''1.1.1.1]'' @ [CHR 0x0A] @ ''[2.2.2.2''\<rparr>,
              example_body2)
   \<and> spec_originatingIP ''[1.1.1.1],[2.2.2.2]'' = ''1.1.1.1'' @ [CHR 0x0A] @ ''2.2.2.2''"
proof -
  have a: "h_Get example_reader ''X-Originating-IP'' = ''[1.2.3.4]''"
    by code_simp
  have b: "processEmlFile example_library (\<lambda>p. Inr example_reader) ''mail/a.eml''
           = Inr (example_record, example_body2)"
    by code_simp
  have c: "IP example_record = ''[1.2.3.4]''"
    by (simp add: example_record_def)
  have d: "spec_originatingIP ''[1.2.3.4]'' = ''1.2.3.4''"
    by code_simp
  have e: "IP example_record \<noteq> spec_originatingIP (h_Get example_reader ''X-Originating-IP'')"
    unfolding a c d by simp
  have f: "Root_Header_Get example_envelope ''X-Originating-IP'' = ''[1.2.3.4]''"
    by code_simp
  have g: "processEmlFile_enmime example_library (\<lambda>p. Inr example_envelope) ''mail/a.eml''
           = Inr (example_record_enmime, example_body2)"
    by code_simp
  have h: "IP example_record_enmime = ''1.2.3.4''"
    by code_simp
  have i: "Root_Header_Get example_envelope_two ''X-Originating-IP'' = ''[1.1.1.1],[2.2.2.2]''"
    by code_simp
  have j: "processEmlFile_enmime example_library (\<lambda>p. Inr example_envelope_two) ''mail/a.eml''
       = Inr (example_record_enmime\<lparr>IP := ''1.1.1.1]'' @ [CHR 0x0A] @ ''[2.2.2.2''\<rparr>,
              example_body2)"
    by code_simp
  have k: "spec_originatingIP ''[1.1.1.1],[2.2.2.2]'' = ''1.1.1.1'' @ [CHR 0x0A] @ ''2.2.2.2''"
    by code_simp
  show ?thesis
    by (intro conjI a b c d e f g h i j k)
qed

text \<open>
  C8. Two inputs on which the sender fields are not what the two-stage parser is described
  to give. The variants on go-message do not call \<open>parseAddress\<close>: for a \<open>From\<close> field \<open>foo\<close>,
  which neither the library nor the pattern accepts, name and address of the record are both
  empty, where \<open>parseAddress\<close> (and with it the variant on enmime) gives the trimmed input
  \<open>foo\<close> as the address. And in \<open>parseAddress\<close> itself the group for the name is greedy and
  also takes the \<open><\<close> and all of the local part but its last character: for
  \<open>Bob <bob@example.com\<close>, which \<open>mail.ParseAddress\<close> rejects, the name is \<open>Bob <bo\<close> and the
  address \<open>b@example.com\<close>.
\<close>

theorem parseAddress_divergence:
  "h_Get example_reader ''From'' = ''foo''
   \<and> h_AddressList example_reader ''From'' = Inl (Error ''mail: missing @ in addr-spec'')
   \<and> processEmlFile example_library (\<lambda>p. Inr example_reader) ''mail/a.eml''
       = Inr (example_record, example_body2)
   \<and> (FromName example_record, FromEmail example_record) = ([], [])
   \<and> mailParseAddress example_library ''foo'' = Inl (Error ''mail: missing @ in addr-spec'')
   \<and> addrRegex_FindStringSubmatch (TrimSpace ''foo'') = None
   \<and> parseAddress (mailParseAddress example_library) ''foo'' = ([], ''foo'')
   \<and> processEmlFile_enmime example_library (\<lambda>p. Inr example_envelope) ''mail/a.eml''
       = Inr (example_record_enmime, example_body2)
   \<and> (FromName example_record_enmime, FromEmail example_record_enmime) = ([], ''foo'')
   \<and> mailParseAddress example_library ''Bob <bob@example.com''
       = Inl (Error ''mail: missing @ in addr-spec'')
   \<and> addrRegex_FindStringSubmatch (TrimSpace ''Bob <bob@example.com'')
       = Some (''Bob <bo'', ''b@example.com'')
   \<and> parseAddress (mailParseAddress example_library) ''Bob <bob@example.com''
       = (''Bob <bo'', ''b@example.com'')"
proof -
  have a: "h_Get example_reader ''From'' = ''foo''"
    by code_simp
  have b: "h_AddressList example_reader ''From'' = Inl (Error ''mail: missing @ in addr-spec'')"
    by code_simp
  have c: "processEmlFile example_library (\<lambda>p. Inr example_reader) ''mail/a.eml''
           = Inr (example_record, example_body2)"
    by code_simp
  have d: "(FromName example_record, FromEmail example_record) = ([], [])"
    by (simp add: example_record_def)
  have e: "mailParseAddress example_library ''foo'' = Inl (Error ''mail: missing @ in addr-spec'')"
    by code_simp
  have f: "addrRegex_FindStringSubmatch (TrimSpace ''foo'') = None"
    by code_simp
  have g: "parseAddress (mailParseAddress example_library) ''foo'' = ([], ''foo'')"
    by code_simp
  have h: "processEmlFile_enmime example_library (\<lambda>p. Inr example_envelope) ''mail/a.eml''
           = Inr (example_record_enmime, example_body2)"
    by code_simp
  have i: "(FromName example_record_enmime, FromEmail example_record_enmime) = ([], ''foo'')"
    by code_simp
  have j: "mailParseAddress example_library ''Bob <bob@example.com''
           = Inl (Error ''mail: missing @ in addr-spec'')"
    by code_simp
  have k: "addrRegex_FindStringSubmatch (TrimSpace ''Bob <bob@example.com'')
           = Some (''Bob <bo'', ''b@example.com'')"
    by code_simp
  have l: "parseAddress (mailParseAddress example_library) ''Bob <bob@example.com''
           = (''Bob <bo'', ''b@example.com'')"
    by code_simp
  show ?thesis
    by (intro conjI a b c d e f g h i j k l)
qed

section \<open>Properties of the batch\<close>

lemma sum_list_map_update:
  fixes f :: "'a \<Rightarrow> 'b::comm_monoid_add"
  shows "i < length xs \<Longrightarrow>
         sum_list (map f (xs[i := v])) + f (xs ! i) = sum_list (map f xs) + f v"
proof (induction xs arbitrary: i)
  case Nil
  then show ?case by simp
next
  case (Cons x xs)
  show ?case
  proof (cases i)
    case 0
    then show ?thesis by (simp add: ac_simps)
  next
    case (Suc j)
    with Cons.prems have "j < length xs" by simp
    from Cons.IH [OF this] Suc show ?thesis
      by (simp add: ac_simps)
  qed
qed

lemma Done_update:
  "v \<noteq> Done \<Longrightarrow> Done \<in> set (xs[i := v]) \<Longrightarrow> Done \<in> set xs"
  by (metis in_set_conv_nth length_list_update nth_list_update_eq nth_list_update_neq)

lemma all_Done_nth:
  "list_all (\<lambda>w. w = Done) xs \<Longrightarrow> i < length xs \<Longrightarrow> xs ! i = Done"
  by (simp add: list_all_length)

lemma invariant_initial: "invariant paths workerCount (initial paths workerCount fs)"
proof -
  have "sum_list (map in_hand (replicate n Receiving)) = 0" for n
    by (induction n) simp_all
  then show ?thesis
    by (simp add: invariant_def initial_def)
qed

lemma in_hand_update:
  assumes "i < length (workers s)"
  shows "sum_list (map in_hand ((workers s)[i := v])) + in_hand (workers s ! i)
         = sum_list (map in_hand (workers s)) + in_hand v"
  using assms by (rule sum_list_map_update)

lemma invariant_step:
  assumes "step lib opts process (length paths) s s'" and "invariant paths workerCount s"
  shows "invariant paths workerCount s'"
  using assms(1)
proof (cases rule: step.cases)
  case (send p ps)
  with assms(2) show ?thesis
    by (auto simp: invariant_def)
next
  case close
  with assms(2) show ?thesis
    by (auto simp: invariant_def)
next
  case (receive i p ps)
  from in_hand_update [OF receive(2), of "Processing p"] receive(3)
  have "sum_list (map in_hand ((workers s)[i := Processing p]))
        = sum_list (map in_hand (workers s)) + 1"
    by simp
  moreover have "Done \<notin> set ((workers s)[i := Processing p])"
    using assms(2) receive(4) Done_update [of "Processing p" "workers s" i]
    by (auto simp: invariant_def)
  moreover have "returned s = None"
    using assms(2) receive(2,3) all_Done_nth [of "workers s" i]
    by (auto simp: invariant_def)
  ultimately show ?thesis
    using assms(2) receive(1,4) by (auto simp: invariant_def)
next
  case (work i p cs res)
  from in_hand_update [OF work(2), of "Calling p cs res"] work(3)
  have "sum_list (map in_hand ((workers s)[i := Calling p cs res]))
        = sum_list (map in_hand (workers s))"
    by simp
  moreover have "Done \<in> set ((workers s)[i := Calling p cs res]) \<Longrightarrow> Done \<in> set (workers s)"
    using Done_update [of "Calling p cs res" "workers s" i] by simp
  moreover have "returned s = None"
    using assms(2) work(2,3) all_Done_nth [of "workers s" i]
    by (auto simp: invariant_def)
  ultimately show ?thesis
    using assms(2) work(1) by (auto simp: invariant_def)
next
  case (call i p c cs res)
  from in_hand_update [OF call(2), of "Calling p cs res"] call(3)
  have "sum_list (map in_hand ((workers s)[i := Calling p cs res]))
        = sum_list (map in_hand (workers s))"
    by simp
  moreover have "Done \<in> set ((workers s)[i := Calling p cs res]) \<Longrightarrow> Done \<in> set (workers s)"
    using Done_update [of "Calling p cs res" "workers s" i] by simp
  moreover have "returned s = None"
    using assms(2) call(2,3) all_Done_nth [of "workers s" i]
    by (auto simp: invariant_def)
  ultimately show ?thesis
    using assms(2) call(1) by (auto simp: invariant_def)
next
  case (emit i p res)
  from in_hand_update [OF emit(2), of Receiving] emit(3)
  have "sum_list (map in_hand ((workers s)[i := Receiving])) + 1
        = sum_list (map in_hand (workers s))"
    by simp
  moreover have "Done \<in> set ((workers s)[i := Receiving]) \<Longrightarrow> Done \<in> set (workers s)"
    using Done_update [of Receiving "workers s" i] by simp
  moreover have "returned s = None"
    using assms(2) emit(2,3) all_Done_nth [of "workers s" i]
    by (auto simp: invariant_def)
  ultimately show ?thesis
    using assms(2) emit(1) by (auto simp: invariant_def)
next
  case (finish i)
  from in_hand_update [OF finish(2), of Done] finish(3)
  have "sum_list (map in_hand ((workers s)[i := Done])) = sum_list (map in_hand (workers s))"
    by simp
  moreover have "returned s = None"
    using assms(2) finish(2,3) all_Done_nth [of "workers s" i]
    by (auto simp: invariant_def)
  ultimately show ?thesis
    using assms(2) finish(1,4,5) by (auto simp: invariant_def)
next
  case collect
  with assms(2) show ?thesis
    by (auto simp: invariant_def)
qed

lemma invariant_reachable:
  assumes "reachable lib opts process paths workerCount fs s"
  shows "invariant paths workerCount s"
  using assms unfolding reachable_def
  by (induction rule: rtranclp_induct) (auto intro: invariant_initial invariant_step)

lemma weight_update:
  assumes "i < length (workers s)"
  shows "sum_list (map worker_weight ((workers s)[i := v])) + worker_weight (workers s ! i)
         = sum_list (map worker_weight (workers s)) + worker_weight v"
  using assms by (rule sum_list_map_update)

lemma workerBody_length: "workerBody opts process fs p = (cs, res) \<Longrightarrow> length cs \<le> 2"
  by (auto simp: workerBody_def sideEffects_def split: sum.splits prod.splits)

lemma step_weight:
  assumes "step lib opts process cap s s'"
  shows "weight s' < weight s"
  using assms
proof (cases rule: step.cases)
  case (send p ps)
  then show ?thesis by (simp add: weight_def)
next
  case close
  then show ?thesis by (simp add: weight_def)
next
  case (receive i p ps)
  with weight_update [OF receive(2), of "Processing p"] show ?thesis
    by (simp add: weight_def)
next
  case (work i p cs res)
  with weight_update [OF work(2), of "Calling p cs res"] workerBody_length [OF work(4)]
  show ?thesis
    by (simp add: weight_def)
next
  case (call i p c cs res)
  with weight_update [OF call(2), of "Calling p cs res"] show ?thesis
    by (simp add: weight_def)
next
  case (emit i p res)
  with weight_update [OF emit(2), of Receiving] show ?thesis
    by (simp add: weight_def)
next
  case (finish i)
  with weight_update [OF finish(2), of Done] show ?thesis
    by (simp add: weight_def)
next
  case collect
  then show ?thesis by (simp add: weight_def)
qed

lemma in_hand_pos:
  assumes "i < length ws" and "0 < in_hand (ws ! i)"
  shows "0 < sum_list (map in_hand ws)"
  using assms
proof (induction ws arbitrary: i)
  case Nil
  then show ?case by simp
next
  case (Cons w ws)
  then show ?case
    by (cases i) auto
qed

lemma all_Done_in_hand: "list_all (\<lambda>w. w = Done) ws \<Longrightarrow> sum_list (map in_hand ws) = 0"
  by (induction ws) auto

lemma not_all_Done:
  assumes "\<not> list_all (\<lambda>w. w = Done) ws"
  shows "\<exists>i < length ws. ws ! i \<noteq> Done"
  using assms by (auto simp: list_all_length)

lemma progress:
  assumes "invariant paths workerCount s" and "returned s = None"
  shows "\<exists>s'. step lib opts process (length paths) s s'"
proof -
  have sz: "length (results s) + sum_list (map in_hand (workers s)) + length (tasks s)
            + length (unsent s) = length paths"
    using assms(1) by (simp add: invariant_def)
  show ?thesis
  proof (cases "unsent s")
    case (Cons p ps)
    with sz have "length (tasks s) < length paths"
      by simp
    with Cons show ?thesis
      by (blast intro: step.send)
  next
    case Nil
    show ?thesis
    proof (cases "tasks_closed s")
      case False
      with Nil show ?thesis
        by (blast intro: step.close)
    next
      case True
      show ?thesis
      proof (cases "list_all (\<lambda>w. w = Done) (workers s)")
        case True
        with Nil \<open>tasks_closed s\<close> assms(2) show ?thesis
          by (blast intro: step.collect)
      next
        case False
        from not_all_Done [OF this] obtain i where
          i: "i < length (workers s)" "workers s ! i \<noteq> Done"
          by blast
        show ?thesis
        proof (cases "workers s ! i")
          case Receiving
          show ?thesis
          proof (cases "tasks s")
            case Nil
            with i(1) Receiving True show ?thesis
              by (blast intro: step.finish)
          next
            case (Cons p ps)
            with i(1) Receiving show ?thesis
              by (blast intro: step.receive)
          qed
        next
          case (Processing p)
          obtain cs res where "workerBody opts process (files s) p = (cs, res)"
            by (cases "workerBody opts process (files s) p")
          with i(1) Processing show ?thesis
            by (blast intro: step.work)
        next
          case (Calling p cs res)
          show ?thesis
          proof (cases cs)
            case Nil
            from Calling have "0 < in_hand (workers s ! i)"
              by simp
            from in_hand_pos [OF i(1) this] sz have "length (results s) < length paths"
              by simp
            with i(1) Calling Nil show ?thesis
              by (blast intro: step.emit)
          next
            case (Cons c rest)
            with i(1) Calling show ?thesis
              by (blast intro: step.call)
          qed
        next
          case Done
          with i(2) show ?thesis by simp
        qed
      qed
    qed
  qed
qed

lemma reachable_step:
  "reachable lib opts process paths workerCount fs s \<Longrightarrow>
   step lib opts process (length paths) s s' \<Longrightarrow>
   reachable lib opts process paths workerCount fs s'"
  unfolding reachable_def by (rule rtranclp.rtrancl_into_rtrancl)

lemma reaches_return:
  assumes "reachable lib opts process paths workerCount fs s"
  shows "\<exists>s'. (step lib opts process (length paths))\<^sup>*\<^sup>* s s' \<and> returned s' \<noteq> None"
  using assms
proof (induction "weight s" arbitrary: s rule: less_induct)
  case less
  show ?case
  proof (cases "returned s")
    case (Some recs)
    then show ?thesis by auto
  next
    case None
    from progress [OF invariant_reachable [OF less.prems] None] obtain s1 where
      s1: "step lib opts process (length paths) s s1"
      by blast
    from less.hyps [OF step_weight [OF s1] reachable_step [OF less.prems s1]] obtain s' where
      "(step lib opts process (length paths))\<^sup>*\<^sup>* s1 s'" "returned s' \<noteq> None"
      by blast
    with s1 show ?thesis
      by (blast intro: converse_rtranclp_into_rtranclp)
  qed
qed

lemma reachable_initial:
  "reachable lib opts process paths workerCount fs (initial paths workerCount fs)"
  by (simp add: reachable_def)

lemma can_return:
  "\<exists>s. reachable lib opts process paths workerCount fs s \<and> returned s \<noteq> None"
proof -
  from reaches_return [OF reachable_initial] obtain s' where
    "(step lib opts process (length paths))\<^sup>*\<^sup>* (initial paths workerCount fs) s'"
    "returned s' \<noteq> None"
    by blast
  then show ?thesis
    unfolding reachable_def by blast
qed

lemma collectLoop_eq: "collectLoop rs records = records @ concat (map success rs)"
  by (induction rs arbitrary: records) (auto simp: success_def split: option.splits)

lemma length_success:
  "length (concat (map success rs)) = length rs - length (filter (\<lambda>r. result_err r \<noteq> None) rs)"
proof (induction rs)
  case Nil
  show ?case by simp
next
  case (Cons r rs)
  have "length (filter (\<lambda>r. result_err r \<noteq> None) rs) \<le> length rs"
    by (rule length_filter_le)
  with Cons show ?case
    by (auto simp: success_def split: option.splits)
qed

lemma returned_state:
  assumes "reachable lib opts process paths workerCount fs s" and "returned s = Some recs"
    and "0 < workerCount"
  shows "tasks s = []" and "unsent s = []" and "list_all (\<lambda>w. w = Done) (workers s)"
    and "length (results s) = length paths" and "recs = concat (map success (results s))"
proof -
  from invariant_reachable [OF assms(1)] assms(2) have
    sz: "length (results s) + sum_list (map in_hand (workers s)) + length (tasks s)
            + length (unsent s) = length paths"
    and len: "length (workers s) = workerCount"
    and cl: "tasks_closed s \<longrightarrow> unsent s = []"
    and dn: "Done \<in> set (workers s) \<longrightarrow> tasks_closed s \<and> tasks s = []"
    and all: "list_all (\<lambda>w. w = Done) (workers s)"
    and r: "recs = collectLoop (results s) []"
    by (auto simp: invariant_def)
  from len assms(3) all have "Done \<in> set (workers s)"
    by (cases "workers s") auto
  with dn cl show t: "tasks s = []" and u: "unsent s = []"
    by auto
  show "list_all (\<lambda>w. w = Done) (workers s)"
    by (rule all)
  from sz t u all_Done_in_hand [OF all] show "length (results s) = length paths"
    by simp
  from r show "recs = concat (map success (results s))"
    by (simp add: collectLoop_eq)
qed

subsection \<open>The transitions as functions\<close>

lemma main_move_step: "main_move cap s = Some s' \<Longrightarrow> step lib opts process cap s s'"
  by (auto simp: main_move_def split: list.splits if_splits
      intro: step.send step.close step.collect)

lemma worker_move_step:
  assumes "worker_move lib opts process cap i s = Some s'"
  shows "step lib opts process cap s s'"
proof -
  from assms have i: "i < length (workers s)"
    by (auto simp: worker_move_def split: if_splits)
  show ?thesis
  proof (cases "workers s ! i")
    case Receiving
    with assms i show ?thesis
      by (auto simp: worker_move_def split: list.splits if_splits
          intro: step.receive step.finish)
  next
    case (Processing p)
    with assms i show ?thesis
      by (auto simp: worker_move_def split: prod.splits intro: step.work)
  next
    case (Calling p cs res)
    with assms i show ?thesis
      by (auto simp: worker_move_def split: list.splits if_splits
          intro: step.call step.emit)
  next
    case Done
    with assms i show ?thesis
      by (simp add: worker_move_def)
  qed
qed

lemma move_step: "move lib opts process cap g s = Some s' \<Longrightarrow> step lib opts process cap s s'"
  by (cases g) (auto intro: main_move_step worker_move_step)

lemma step_move:
  assumes "step lib opts process cap s s'"
  shows "\<exists>g. move lib opts process cap g s = Some s'"
  using assms
proof (cases rule: step.cases)
  case (send p ps)
  then have "move lib opts process cap Main s = Some s'"
    by (simp add: main_move_def)
  then show ?thesis ..
next
  case close
  then have "move lib opts process cap Main s = Some s'"
    by (simp add: main_move_def)
  then show ?thesis ..
next
  case collect
  then have "move lib opts process cap Main s = Some s'"
    by (auto simp: main_move_def split: list.splits)
  then show ?thesis ..
next
  case (receive i p ps)
  then have "move lib opts process cap (Worker i) s = Some s'"
    by (simp add: worker_move_def)
  then show ?thesis ..
next
  case (work i p cs res)
  then have "move lib opts process cap (Worker i) s = Some s'"
    by (simp add: worker_move_def)
  then show ?thesis ..
next
  case (call i p c cs res)
  then have "move lib opts process cap (Worker i) s = Some s'"
    by (simp add: worker_move_def)
  then show ?thesis ..
next
  case (emit i p res)
  then have "move lib opts process cap (Worker i) s = Some s'"
    by (simp add: worker_move_def)
  then show ?thesis ..
next
  case (finish i)
  then have "move lib opts process cap (Worker i) s = Some s'"
    by (simp add: worker_move_def)
  then show ?thesis ..
qed

lemma follow_steps: "(step lib opts process cap)\<^sup>*\<^sup>* s (follow lib opts process cap schedule s)"
proof (induction schedule arbitrary: s)
  case Nil
  show ?case by simp
next
  case (Cons g schedule)
  show ?case
  proof (cases "move lib opts process cap g s")
    case None
    with Cons [of s] show ?thesis by simp
  next
    case (Some s1)
    from move_step [OF Some] Cons [of s1] Some show ?thesis
      by (simp add: converse_rtranclp_into_rtranclp)
  qed
qed

lemma follow_reachable:
  "reachable lib opts process paths workerCount fs
     (follow lib opts process (length paths) schedule (initial paths workerCount fs))"
  unfolding reachable_def by (rule follow_steps)

subsection \<open>Runs in which no pipeline disturbs another\<close>

lemma perform_outside: "q \<notin> set (touched lib c) \<Longrightarrow> perform lib c fs q = fs q"
proof (cases c)
  case (WriteHtmlFile filePath root dir htmlContent)
  assume "q \<notin> set (touched lib c)"
  with WriteHtmlFile show ?thesis
    by (auto simp: writeHtmlFile_def os_WriteFile_def split: sum.splits)
next
  case (RenameFileTo filePath root dir rec)
  assume "q \<notin> set (touched lib c)"
  with RenameFileTo show ?thesis
    by (auto simp: renameFileTo_def Let_def split: sum.splits)
next
  case (RenameFile filePath rec)
  assume "q \<notin> set (touched lib c)"
  with RenameFile show ?thesis
    by (auto simp: renameFile_def os_Rename_def split: option.splits if_splits)
qed

lemma pipeline_gomessage_reads_own:
  "fs p = fs' p \<Longrightarrow>
   pipeline_gomessage lib mail_CreateReader fs p = pipeline_gomessage lib mail_CreateReader fs' p"
  by (simp add: pipeline_gomessage_def processEmlFile_def openReader_def os_Open_def)

lemma workerBody_reads_own:
  assumes "\<And>fs fs' p. fs p = fs' p \<Longrightarrow> process fs p = process fs' p" and "fs p = fs' p"
  shows "workerBody opts process fs p = workerBody opts process fs' p"
  using assms(1) [of fs p fs'] assms(2) by (simp add: workerBody_def)

lemma unopened_sub: "sum_list (map (\<lambda>w. mset (unopened w)) ws) \<subseteq># sum_list (map (\<lambda>w. mset (turn w)) ws)"
proof (induction ws)
  case Nil
  show ?case by simp
next
  case (Cons w ws)
  have "mset (unopened w) \<subseteq># mset (turn w)"
    by (cases w) simp_all
  with Cons show ?case
    by (simp add: subset_mset.add_mono)
qed

lemma unopened_turn:
  assumes "i < length ws" and "ws ! i = Calling p cs res"
  shows "sum_list (map (\<lambda>w. mset (unopened w)) ws) + {#p#}
         \<subseteq># sum_list (map (\<lambda>w. mset (turn w)) ws)"
  using assms
proof (induction ws arbitrary: i)
  case Nil
  then show ?case by simp
next
  case (Cons w ws)
  show ?case
  proof (cases i)
    case 0
    with Cons.prems have "w = Calling p cs res"
      by simp
    with unopened_sub [of ws] show ?thesis
      by simp
  next
    case (Suc j)
    with Cons.prems have "j < length ws" "ws ! j = Calling p cs res"
      by simp_all
    from Cons.IH [OF this] have
      "sum_list (map (\<lambda>w. mset (unopened w)) ws) + {#p#}
         \<subseteq># sum_list (map (\<lambda>w. mset (turn w)) ws)" .
    moreover have "mset (unopened w) \<subseteq># mset (turn w)"
      by (cases w) simp_all
    ultimately have "mset (unopened w) + (sum_list (map (\<lambda>w. mset (unopened w)) ws) + {#p#})
         \<subseteq># mset (turn w) + sum_list (map (\<lambda>w. mset (turn w)) ws)"
      by (rule subset_mset.add_mono [rotated])
    then show ?thesis
      by (simp add: ac_simps)
  qed
qed

lemma apart_initial: "apart opts process paths fs (initial paths workerCount fs)"
proof -
  have "sum_list (map (\<lambda>w. mset (inflight opts process fs w)) (replicate n Receiving)) = {#}"
    and "sum_list (map (\<lambda>w. mset (turn w)) (replicate n Receiving)) = {#}"
    and "sum_list (map (\<lambda>w. mset (unopened w)) (replicate n Receiving)) = {#}" for n
    by (induction n) simp_all
  then show ?thesis
    by (simp add: apart_def initial_def waiting_def)
qed

lemma undisturbedD:
  assumes "undisturbed lib opts process fs paths" and "p \<in> set paths"
    and "c \<in> set (fst (workerBody opts process fs p))" and "q \<in># mset paths - {#p#}"
  shows "q \<notin> set (touched lib c)"
proof -
  from assms(4) have "q \<in> set (remove1 p paths)"
    by (metis mset_remove1 set_mset_mset)
  with assms(1,2,3) show ?thesis
    by (auto simp: undisturbed_def list_all_iff)
qed

lemma update_all:
  assumes "\<forall>w \<in> set ws. P w" and "P v"
  shows "\<forall>w \<in> set (ws[i := v]). P w"
  using assms set_update_subset_insert [of ws i v] by auto

lemma apart_step:
  assumes st: "step lib opts process (length paths) s s'"
    and inv: "apart opts process paths fs s"
    and und: "undisturbed lib opts process fs paths"
    and own: "\<And>fs fs' p. fs p = fs' p \<Longrightarrow> process fs p = process fs' p"
  shows "apart opts process paths fs s'"
proof -
  let ?out = "outcome opts process fs"
  let ?I = "\<lambda>w. mset (inflight opts process fs w)"
  let ?U = "\<lambda>w. mset (unopened w)"
  let ?T = "\<lambda>w. mset (turn w)"
  let ?ok = "\<lambda>w. \<forall>p \<in> set (turn w). set (owed w) \<subseteq> set (fst (workerBody opts process fs p))"
  from inv have
    h: "mset (results s) + sum_list (map ?I (workers s)) + mset (map ?out (tasks s @ unsent s))
        = mset (map ?out paths)"
    and f: "\<And>q. q \<in># waiting s \<Longrightarrow> files s q = fs q"
    and ok: "\<forall>w \<in> set (workers s). ?ok w"
    and sub: "mset (unsent s) + mset (tasks s) + sum_list (map ?T (workers s)) \<subseteq># mset paths"
    by (auto simp: apart_def)
  from st show ?thesis
  proof (cases rule: step.cases)
    case (send p ps)
    with h f ok sub show ?thesis
      by (auto simp: apart_def waiting_def ac_simps)
  next
    case close
    with h f ok sub show ?thesis
      by (auto simp: apart_def waiting_def)
  next
    case (receive i p ps)
    from sum_list_map_update [of i "workers s" ?I "Processing p"] receive(2,3)
    have I: "sum_list (map ?I ((workers s)[i := Processing p]))
             = sum_list (map ?I (workers s)) + {#?out p#}"
      by simp
    from sum_list_map_update [of i "workers s" ?U "Processing p"] receive(2,3)
    have U: "sum_list (map ?U ((workers s)[i := Processing p]))
             = sum_list (map ?U (workers s)) + {#p#}"
      by simp
    from sum_list_map_update [of i "workers s" ?T "Processing p"] receive(2,3)
    have T: "sum_list (map ?T ((workers s)[i := Processing p]))
             = sum_list (map ?T (workers s)) + {#p#}"
      by simp
    have 1: "mset (results s') + sum_list (map ?I (workers s'))
               + mset (map ?out (tasks s' @ unsent s')) = mset (map ?out paths)"
      using h receive(1,4) I by (simp add: ac_simps)
    have w: "waiting s' = waiting s"
      using receive(1,4) U by (simp add: waiting_def ac_simps)
    have 2: "\<forall>q. q \<in># waiting s' \<longrightarrow> files s' q = fs q"
      unfolding w using f receive(1) by simp
    have 3: "\<forall>w \<in> set (workers s'). ?ok w"
      using update_all [OF ok, of "Processing p" i] receive(1) by simp
    have 4: "mset (unsent s') + mset (tasks s') + sum_list (map ?T (workers s')) \<subseteq># mset paths"
      using sub receive(1,4) T by (simp add: ac_simps)
    from 1 2 3 4 show ?thesis
      unfolding apart_def by blast
  next
    case (work i p cs res)
    from sum_list_map_update [of i "workers s" ?U "Calling p cs res"] work(2,3)
    have U: "sum_list (map ?U ((workers s)[i := Calling p cs res])) + {#p#}
             = sum_list (map ?U (workers s))"
      by simp
    have "p \<in># sum_list (map ?U ((workers s)[i := Calling p cs res])) + {#p#}"
      by simp
    then have "p \<in># sum_list (map ?U (workers s))"
      unfolding U .
    then have "p \<in># waiting s"
      by (simp add: waiting_def)
    then have "files s p = fs p"
      by (rule f)
    from workerBody_reads_own [of process "files s" p fs opts, OF own this] work(4)
    have wb: "workerBody opts process fs p = (cs, res)"
      by simp
    then have res: "res = ?out p"
      by (simp add: outcome_def)
    from sum_list_map_update [of i "workers s" ?I "Calling p cs res"] work(2,3) res
    have I: "sum_list (map ?I ((workers s)[i := Calling p cs res]))
             = sum_list (map ?I (workers s))"
      by simp
    from sum_list_map_update [of i "workers s" ?T "Calling p cs res"] work(2,3)
    have T: "sum_list (map ?T ((workers s)[i := Calling p cs res]))
             = sum_list (map ?T (workers s))"
      by simp
    have 1: "mset (results s') + sum_list (map ?I (workers s'))
               + mset (map ?out (tasks s' @ unsent s')) = mset (map ?out paths)"
      using h work(1) I by simp
    have w: "waiting s' + {#p#} = waiting s"
      using work(1) U by (simp add: waiting_def ac_simps)
    have 2: "\<forall>q. q \<in># waiting s' \<longrightarrow> files s' q = fs q"
    proof (intro allI impI)
      fix q assume "q \<in># waiting s'"
      then have "q \<in># waiting s' + {#p#}"
        by simp
      then have "q \<in># waiting s"
        unfolding w .
      with f work(1) show "files s' q = fs q"
        by simp
    qed
    have "?ok (Calling p cs res)"
      using wb by simp
    from update_all [OF ok, of "Calling p cs res" i, OF this]
    have 3: "\<forall>w \<in> set (workers s'). ?ok w"
      using work(1) by simp
    have 4: "mset (unsent s') + mset (tasks s') + sum_list (map ?T (workers s')) \<subseteq># mset paths"
      using sub work(1) T by simp
    from 1 2 3 4 show ?thesis
      unfolding apart_def by blast
  next
    case (call i p c cs res)
    from sum_list_map_update [of i "workers s" ?I "Calling p cs res"] call(2,3)
    have I: "sum_list (map ?I ((workers s)[i := Calling p cs res]))
             = sum_list (map ?I (workers s))"
      by simp
    from sum_list_map_update [of i "workers s" ?U "Calling p cs res"] call(2,3)
    have U: "sum_list (map ?U ((workers s)[i := Calling p cs res]))
             = sum_list (map ?U (workers s))"
      by simp
    from sum_list_map_update [of i "workers s" ?T "Calling p cs res"] call(2,3)
    have T: "sum_list (map ?T ((workers s)[i := Calling p cs res]))
             = sum_list (map ?T (workers s))"
      by simp
    have 1: "mset (results s') + sum_list (map ?I (workers s'))
               + mset (map ?out (tasks s' @ unsent s')) = mset (map ?out paths)"
      using h call(1) I by simp
    have w: "waiting s' = waiting s"
      using call(1) U by (simp add: waiting_def)
    have mem: "workers s ! i \<in> set (workers s)"
      using call(2) by simp
    with ok have "?ok (workers s ! i)"
      by (rule bspec)
    then have okc: "set (c # cs) \<subseteq> set (fst (workerBody opts process fs p))"
      unfolding call(3) by simp
    then have c: "c \<in> set (fst (workerBody opts process fs p))"
      by simp
    have "waiting s + {#p#} \<subseteq># mset (unsent s) + mset (tasks s) + sum_list (map ?T (workers s))"
      using unopened_turn [OF call(2,3)] by (simp add: waiting_def ac_simps)
    from this sub have ws: "waiting s + {#p#} \<subseteq># mset paths"
      by (rule subset_mset.order_trans)
    moreover have "p \<in># waiting s + {#p#}"
      by simp
    ultimately have "p \<in># mset paths"
      by (rule mset_subset_eqD)
    then have p: "p \<in> set paths"
      by simp
    have 2: "\<forall>q. q \<in># waiting s' \<longrightarrow> files s' q = fs q"
    proof (intro allI impI)
      fix q assume "q \<in># waiting s'"
      then have q: "q \<in># waiting s"
        by (simp add: w)
      from ws have "count (waiting s + {#p#}) q \<le> count (mset paths) q"
        by (rule mset_subset_eq_count)
      then have "count (waiting s) q + count {#p#} q \<le> count (mset paths) q"
        by (simp only: count_union)
      moreover from q obtain n where "count (waiting s) q = Suc n"
        by (metis count_greater_zero_iff gr0_implies_Suc)
      ultimately have "count {#p#} q < count (mset paths) q"
        by linarith
      then have "q \<in># mset paths - {#p#}"
        by (simp only: in_diff_count)
      from undisturbedD [OF und p c this] have "perform lib c (files s) q = files s q"
        by (rule perform_outside)
      with f [OF q] call(1) show "files s' q = fs q"
        by simp
    qed
    have "?ok (Calling p cs res)"
      using okc by auto
    from update_all [OF ok, of "Calling p cs res" i, OF this]
    have 3: "\<forall>w \<in> set (workers s'). ?ok w"
      using call(1) by simp
    have 4: "mset (unsent s') + mset (tasks s') + sum_list (map ?T (workers s')) \<subseteq># mset paths"
      using sub call(1) T by simp
    from 1 2 3 4 show ?thesis
      unfolding apart_def by blast
  next
    case (emit i p res)
    from sum_list_map_update [of i "workers s" ?I Receiving] emit(2,3)
    have I: "sum_list (map ?I ((workers s)[i := Receiving])) + {#res#}
             = sum_list (map ?I (workers s))"
      by simp
    from sum_list_map_update [of i "workers s" ?U Receiving] emit(2,3)
    have U: "sum_list (map ?U ((workers s)[i := Receiving])) = sum_list (map ?U (workers s))"
      by simp
    from sum_list_map_update [of i "workers s" ?T Receiving] emit(2,3)
    have T: "sum_list (map ?T ((workers s)[i := Receiving])) + {#p#}
             = sum_list (map ?T (workers s))"
      by simp
    have "mset (results s) + (sum_list (map ?I ((workers s)[i := Receiving])) + {#res#})
            + mset (map ?out (tasks s @ unsent s)) = mset (map ?out paths)"
      using h unfolding I .
    then have 1: "mset (results s') + sum_list (map ?I (workers s'))
               + mset (map ?out (tasks s' @ unsent s')) = mset (map ?out paths)"
      using emit(1) by (simp add: ac_simps)
    have w: "waiting s' = waiting s"
      using emit(1) U by (simp add: waiting_def)
    have 2: "\<forall>q. q \<in># waiting s' \<longrightarrow> files s' q = fs q"
      unfolding w using f emit(1) by simp
    have 3: "\<forall>w \<in> set (workers s'). ?ok w"
      using update_all [OF ok, of Receiving i] emit(1) by simp
    have "mset (unsent s) + mset (tasks s)
            + (sum_list (map ?T ((workers s)[i := Receiving])) + {#p#}) \<subseteq># mset paths"
      using sub unfolding T .
    moreover have "mset (unsent s) + mset (tasks s)
            + sum_list (map ?T ((workers s)[i := Receiving]))
          \<subseteq># mset (unsent s) + mset (tasks s)
            + (sum_list (map ?T ((workers s)[i := Receiving])) + {#p#})"
      by simp
    ultimately have "mset (unsent s) + mset (tasks s)
            + sum_list (map ?T ((workers s)[i := Receiving])) \<subseteq># mset paths"
      by (rule subset_mset.order_trans [rotated])
    then have 4: "mset (unsent s') + mset (tasks s') + sum_list (map ?T (workers s'))
                    \<subseteq># mset paths"
      using emit(1) by simp
    from 1 2 3 4 show ?thesis
      unfolding apart_def by blast
  next
    case (finish i)
    from sum_list_map_update [of i "workers s" ?I Done] finish(2,3)
    have I: "sum_list (map ?I ((workers s)[i := Done])) = sum_list (map ?I (workers s))"
      by simp
    from sum_list_map_update [of i "workers s" ?U Done] finish(2,3)
    have U: "sum_list (map ?U ((workers s)[i := Done])) = sum_list (map ?U (workers s))"
      by simp
    from sum_list_map_update [of i "workers s" ?T Done] finish(2,3)
    have T: "sum_list (map ?T ((workers s)[i := Done])) = sum_list (map ?T (workers s))"
      by simp
    have 1: "mset (results s') + sum_list (map ?I (workers s'))
               + mset (map ?out (tasks s' @ unsent s')) = mset (map ?out paths)"
      using h finish(1) I by simp
    have w: "waiting s' = waiting s"
      using finish(1) U by (simp add: waiting_def)
    have 2: "\<forall>q. q \<in># waiting s' \<longrightarrow> files s' q = fs q"
      unfolding w using f finish(1) by simp
    have 3: "\<forall>w \<in> set (workers s'). ?ok w"
      using update_all [OF ok, of Done i] finish(1) by simp
    have 4: "mset (unsent s') + mset (tasks s') + sum_list (map ?T (workers s')) \<subseteq># mset paths"
      using sub finish(1) T by simp
    from 1 2 3 4 show ?thesis
      unfolding apart_def by blast
  next
    case collect
    with h f ok sub show ?thesis
      by (auto simp: apart_def waiting_def)
  qed
qed

lemma apart_reachable:
  assumes "reachable lib opts process paths workerCount fs s"
    and "undisturbed lib opts process fs paths"
    and "\<And>fs fs' p. fs p = fs' p \<Longrightarrow> process fs p = process fs' p"
  shows "apart opts process paths fs s"
  using assms(1) unfolding reachable_def
proof (induction rule: rtranclp_induct)
  case base
  show ?case by (rule apart_initial)
next
  case (step s s')
  from apart_step [OF step(2) step(3) assms(2) assms(3)] show ?case .
qed

lemma all_Done_inflight:
  "list_all (\<lambda>w. w = Done) ws \<Longrightarrow> sum_list (map (\<lambda>w. mset (inflight opts process fs w)) ws) = {#}"
  by (induction ws) auto

lemma success_outcome:
  "success (outcome opts process fs p)
   = (if isl (process fs p) then [] else [fst (projr (process fs p))])"
  by (auto simp: success_def outcome_def workerBody_def split: sum.splits prod.splits)

lemma successes_paths:
  "concat (map (\<lambda>p. success (outcome opts process fs p)) paths)
   = map (\<lambda>p. fst (projr (process fs p))) (filter (\<lambda>p. \<not> isl (process fs p)) paths)"
  by (induction paths) (simp_all add: success_outcome)

lemma mset_concat_map:
  "mset xs = mset ys \<Longrightarrow> mset (concat (map f xs)) = mset (concat (map f ys))"
proof -
  assume a: "mset xs = mset ys"
  have "mset (concat (map f zs)) = sum_mset (image_mset (\<lambda>z. mset (f z)) (mset zs))" for zs
    by (induction zs) simp_all
  with a show ?thesis
    by simp
qed

lemma undisturbed_records:
  assumes "reachable lib opts process paths workerCount fs s" and "returned s = Some recs"
    and "0 < workerCount" and "undisturbed lib opts process fs paths"
    and "\<And>fs fs' p. fs p = fs' p \<Longrightarrow> process fs p = process fs' p"
  shows "mset (results s) = mset (map (outcome opts process fs) paths)"
    and "mset recs
         = mset (map (\<lambda>p. fst (projr (process fs p))) (filter (\<lambda>p. \<not> isl (process fs p)) paths))"
    and "length recs = length paths - length (filter (\<lambda>p. isl (process fs p)) paths)"
proof -
  note rs = returned_state [OF assms(1,2,3)]
  from apart_reachable [OF assms(1) assms(4) assms(5)] rs(1,2) all_Done_inflight [OF rs(3)]
  show m: "mset (results s) = mset (map (outcome opts process fs) paths)"
    by (simp add: apart_def)
  have "concat (map success (map (outcome opts process fs) paths))
        = map (\<lambda>p. fst (projr (process fs p))) (filter (\<lambda>p. \<not> isl (process fs p)) paths)"
    using successes_paths [of opts process fs paths] by (simp add: comp_def)
  moreover have "mset (concat (map success (results s)))
        = mset (concat (map success (map (outcome opts process fs) paths)))"
    using m by (rule mset_concat_map)
  ultimately show r: "mset recs
         = mset (map (\<lambda>p. fst (projr (process fs p))) (filter (\<lambda>p. \<not> isl (process fs p)) paths))"
    unfolding rs(5) by (simp only:)
  have "length recs = size (mset recs)"
    by simp
  also have "\<dots> = length (filter (\<lambda>p. \<not> isl (process fs p)) paths)"
    unfolding r by (simp only: size_mset length_map)
  also have "\<dots> = length paths - length (filter (\<lambda>p. isl (process fs p)) paths)"
    using sum_length_filter_compl [of "\<lambda>p. isl (process fs p)" paths] by simp
  finally show "length recs = length paths - length (filter (\<lambda>p. isl (process fs p)) paths)" .
qed

subsection \<open>The calls of a run and the records it returns\<close>

lemma copied_sideEffects:
  "concat (map copiedRecords (sideEffects opts path rec htmlContent))
   = (if renameByHeaderTo opts \<noteq> [] then [rec] else [])"
  by (simp add: sideEffects_def)

lemma renamed_sideEffects:
  "concat (map renamedRecords (sideEffects opts path rec htmlContent))
   = (if renameByHeaderTo opts = [] \<and> renameByHeader opts then [rec] else [])"
  by (simp add: sideEffects_def)

lemma workerBody_paid:
  assumes "\<And>path rec htmlContent.
             concat (map h (sideEffects opts path rec htmlContent)) = (if b then [rec] else [])"
  shows "concat (map h (fst (workerBody opts process fs p)))
         = (if b then success (snd (workerBody opts process fs p)) else [])"
  using assms by (auto simp: workerBody_def success_def split: sum.splits prod.splits)

lemma paid_initial:
  "mset (concat (map h (calls (initial paths workerCount fs))))
     + sum_list (map (\<lambda>w. mset (concat (map h (owed w)))) (workers (initial paths workerCount fs)))
   = mset (concat (map g (results (initial paths workerCount fs))))
     + sum_list (map (\<lambda>w. mset (concat (map g (holding w))))
         (workers (initial paths workerCount fs)))"
proof -
  have "sum_list (map (\<lambda>w. mset (concat (map h (owed w)))) (replicate n Receiving)) = {#}"
    and "sum_list (map (\<lambda>w. mset (concat (map g (holding w)))) (replicate n Receiving)) = {#}"
    for n
    by (induction n) simp_all
  then show ?thesis
    by (simp add: initial_def)
qed

lemma paid_step:
  assumes st: "step lib opts process cap s s'"
    and inv: "mset (concat (map h (calls s)))
                + sum_list (map (\<lambda>w. mset (concat (map h (owed w)))) (workers s))
              = mset (concat (map g (results s)))
                + sum_list (map (\<lambda>w. mset (concat (map g (holding w)))) (workers s))"
    and wb: "\<And>fs p. concat (map h (fst (workerBody opts process fs p)))
                      = g (snd (workerBody opts process fs p))"
  shows "mset (concat (map h (calls s')))
           + sum_list (map (\<lambda>w. mset (concat (map h (owed w)))) (workers s'))
         = mset (concat (map g (results s')))
           + sum_list (map (\<lambda>w. mset (concat (map g (holding w)))) (workers s'))"
proof -
  let ?O = "\<lambda>w. mset (concat (map h (owed w)))"
  let ?H = "\<lambda>w. mset (concat (map g (holding w)))"
  from st show ?thesis
  proof (cases rule: step.cases)
    case (send p ps)
    with inv show ?thesis by simp
  next
    case close
    with inv show ?thesis by simp
  next
    case (receive i p ps)
    from sum_list_map_update [of i "workers s" ?O "Processing p"] receive(2,3)
    have "sum_list (map ?O ((workers s)[i := Processing p])) = sum_list (map ?O (workers s))"
      by simp
    moreover from sum_list_map_update [of i "workers s" ?H "Processing p"] receive(2,3)
    have "sum_list (map ?H ((workers s)[i := Processing p])) = sum_list (map ?H (workers s))"
      by simp
    ultimately show ?thesis
      using inv receive(1) by simp
  next
    case (work i p cs res)
    from wb [of "files s" p] work(4) have eq: "concat (map h cs) = g res"
      by simp
    from sum_list_map_update [of i "workers s" ?O "Calling p cs res"] work(2,3)
    have "sum_list (map ?O ((workers s)[i := Calling p cs res]))
          = sum_list (map ?O (workers s)) + mset (g res)"
      by (simp add: eq)
    moreover from sum_list_map_update [of i "workers s" ?H "Calling p cs res"] work(2,3)
    have "sum_list (map ?H ((workers s)[i := Calling p cs res]))
          = sum_list (map ?H (workers s)) + mset (g res)"
      by simp
    ultimately show ?thesis
      using inv work(1) by simp
  next
    case (call i p c cs res)
    from sum_list_map_update [of i "workers s" ?O "Calling p cs res"] call(2,3)
    have O: "sum_list (map ?O (workers s))
             = sum_list (map ?O ((workers s)[i := Calling p cs res])) + mset (h c)"
      by (simp add: ac_simps)
    from sum_list_map_update [of i "workers s" ?H "Calling p cs res"] call(2,3)
    have H: "sum_list (map ?H (workers s))
             = sum_list (map ?H ((workers s)[i := Calling p cs res]))"
      by simp
    from inv [unfolded O H] show ?thesis
      using call(1) by (simp add: ac_simps)
  next
    case (emit i p res)
    from sum_list_map_update [of i "workers s" ?O Receiving] emit(2,3)
    have O: "sum_list (map ?O (workers s)) = sum_list (map ?O ((workers s)[i := Receiving]))"
      by simp
    from sum_list_map_update [of i "workers s" ?H Receiving] emit(2,3)
    have H: "sum_list (map ?H (workers s))
             = sum_list (map ?H ((workers s)[i := Receiving])) + mset (g res)"
      by simp
    from inv [unfolded O H] show ?thesis
      using emit(1) by (simp add: ac_simps)
  next
    case (finish i)
    from sum_list_map_update [of i "workers s" ?O Done] finish(2,3)
    have "sum_list (map ?O ((workers s)[i := Done])) = sum_list (map ?O (workers s))"
      by simp
    moreover from sum_list_map_update [of i "workers s" ?H Done] finish(2,3)
    have "sum_list (map ?H ((workers s)[i := Done])) = sum_list (map ?H (workers s))"
      by simp
    ultimately show ?thesis
      using inv finish(1) by simp
  next
    case collect
    with inv show ?thesis by simp
  qed
qed

lemma all_Done_owed:
  "list_all (\<lambda>w. w = Done) ws \<Longrightarrow>
   sum_list (map (\<lambda>w. mset (concat (map h (owed w)))) ws) = {#}
   \<and> sum_list (map (\<lambda>w. mset (concat (map g (holding w)))) ws) = {#}"
  by (induction ws) auto

lemma paid_returned:
  assumes r: "reachable lib opts process paths workerCount fs s" and f: "returned s = Some recs"
    and w: "0 < workerCount"
    and se: "\<And>path rec htmlContent.
               concat (map h (sideEffects opts path rec htmlContent)) = (if b then [rec] else [])"
  shows "mset (concat (map h (calls s))) = (if b then mset recs else {#})"
proof -
  let ?g = "\<lambda>res. if b then success res else []"
  have wb: "concat (map h (fst (workerBody opts process fs p)))
            = ?g (snd (workerBody opts process fs p))" for fs p
    using workerBody_paid [of h opts b process fs p] se by simp
  have "mset (concat (map h (calls s)))
          + sum_list (map (\<lambda>w. mset (concat (map h (owed w)))) (workers s))
        = mset (concat (map ?g (results s)))
          + sum_list (map (\<lambda>w. mset (concat (map ?g (holding w)))) (workers s))"
    using r unfolding reachable_def
  proof (induction rule: rtranclp_induct)
    case base
    show ?case by (rule paid_initial)
  next
    case (step s s')
    from paid_step [of lib opts process "length paths" s s' h ?g, OF step(2) step(3) wb]
    show ?case .
  qed
  moreover note rs = returned_state [OF r f w]
  ultimately have "mset (concat (map h (calls s))) = mset (concat (map ?g (results s)))"
    using all_Done_owed [OF rs(3), of h ?g] by simp
  then show ?thesis
    unfolding rs(5) by simp
qed

lemma workerBody_calls:
  "workerBody opts process fs p = (cs, res) \<Longrightarrow> c \<in> set cs \<Longrightarrow>
   \<exists>rec htmlContent. c \<in> set (sideEffects opts p rec htmlContent)"
  by (auto simp: workerBody_def split: sum.splits prod.splits)

lemma calls_reachable:
  assumes "reachable lib opts process paths workerCount fs s"
  shows "set (unsent s) \<union> set (tasks s) \<subseteq> set paths
    \<and> (\<forall>w \<in> set (workers s). set (turn w) \<subseteq> set paths
          \<and> (\<forall>c \<in> set (owed w). \<exists>p \<in> set paths. \<exists>rec htmlContent.
                 c \<in> set (sideEffects opts p rec htmlContent)))
    \<and> (\<forall>c \<in> set (calls s). \<exists>p \<in> set paths. \<exists>rec htmlContent.
          c \<in> set (sideEffects opts p rec htmlContent))"
  using assms unfolding reachable_def
proof (induction rule: rtranclp_induct)
  case base
  show ?case by (simp add: initial_def)
next
  case (step s s')
  let ?Q = "\<lambda>c. \<exists>p \<in> set paths. \<exists>rec htmlContent. c \<in> set (sideEffects opts p rec htmlContent)"
  let ?W = "\<lambda>w. set (turn w) \<subseteq> set paths \<and> (\<forall>c \<in> set (owed w). ?Q c)"
  from step(3) have a: "set (unsent s) \<union> set (tasks s) \<subseteq> set paths"
    and b: "\<forall>w \<in> set (workers s). ?W w" and c: "\<forall>c \<in> set (calls s). ?Q c"
    by blast+
  from step(2) show ?case
  proof (cases rule: step.cases)
    case (send p ps)
    with a b c show ?thesis by auto
  next
    case close
    with a b c show ?thesis by auto
  next
    case (receive i p ps)
    with a have "?W (Processing p)"
      by simp
    from update_all [OF b, of "Processing p" i, OF this] a c receive(1,4) show ?thesis
      by auto
  next
    case (work i p cs res)
    from work(2,3) have "Processing p \<in> set (workers s)"
      by (metis nth_mem)
    with b have p: "p \<in> set paths"
      by force
    have "\<forall>c \<in> set cs. ?Q c"
      using workerBody_calls [OF work(4)] p by blast
    with p have "?W (Calling p cs res)"
      by simp
    from update_all [OF b, of "Calling p cs res" i, OF this] a c work(1) show ?thesis
      by auto
  next
    case (call i p c' cs res)
    from call(2,3) have "Calling p (c' # cs) res \<in> set (workers s)"
      by (metis nth_mem)
    with b have w: "?W (Calling p (c' # cs) res)"
      by blast
    then have "?W (Calling p cs res)" and q: "?Q c'"
      by auto
    from update_all [OF b, of "Calling p cs res" i, OF this(1)] a c q call(1) show ?thesis
      by auto
  next
    case (emit i p res)
    have "?W Receiving"
      by simp
    from update_all [OF b, of Receiving i, OF this] a c emit(1) show ?thesis
      by auto
  next
    case (finish i)
    have "?W Done"
      by simp
    from update_all [OF b, of Done i, OF this] a c finish(1) show ?thesis
      by auto
  next
    case collect
    with a b c show ?thesis by auto
  qed
qed

lemma RenameFile_sideEffects:
  "RenameFile p r \<in> set (sideEffects opts path rec htmlContent)
   \<longleftrightarrow> renameByHeaderTo opts = [] \<and> renameByHeader opts \<and> p = path \<and> r = rec"
  by (auto simp: sideEffects_def)

lemma RenameFileTo_sideEffects:
  "RenameFileTo p i t r \<in> set (sideEffects opts path rec htmlContent)
   \<longleftrightarrow> renameByHeaderTo opts \<noteq> [] \<and> p = path \<and> i = inputRoot opts
        \<and> t = renameByHeaderTo opts \<and> r = rec"
  by (auto simp: sideEffects_def)

lemma walkDirectory_paid:
  assumes "\<And>path rec htmlContent.
             concat (map h (sideEffects opts path rec htmlContent)) = (if b then [rec] else [])"
    and "concat (map h cs0) = (if b then records0 else [])"
    and "walkDirectory lib opts process paths (records0, cs0, fs0) = (records, cs, fs')"
  shows "concat (map h cs) = (if b then records else [])"
  using assms(2,3)
proof (induction paths arbitrary: records0 cs0 fs0)
  case Nil
  then show ?case by simp
next
  case (Cons path rest)
  show ?case
  proof (cases "process fs0 path")
    case (Inl err)
    with Cons.prems(2) have
      "walkDirectory lib opts process rest (records0, cs0, fs0) = (records, cs, fs')"
      by simp
    from Cons.IH [OF Cons.prems(1) this] show ?thesis .
  next
    case (Inr r)
    obtain rec htmlContent where r: "r = (rec, htmlContent)"
      by (cases r)
    let ?se = "sideEffects opts path rec htmlContent"
    from Inr r Cons.prems(2) have
      w: "walkDirectory lib opts process rest
            (records0 @ [rec], cs0 @ ?se, fold (perform lib) ?se fs0) = (records, cs, fs')"
      by simp
    have "concat (map h (cs0 @ ?se)) = (if b then records0 @ [rec] else [])"
      using Cons.prems(1) assms(1) [of path rec htmlContent] by simp
    from Cons.IH [OF this w] show ?thesis .
  qed
qed

text \<open>
  C9. The statements for the two renamings are an \<open>if\<close> with an \<open>else if\<close>: with a copy
  target the pipeline of a file calls \<open>renameFileTo\<close> (after the HTML dump, if one is
  requested) and never \<open>renameFile\<close>, whether or not the flag for renaming in place is set; it
  calls \<open>renameFile\<close> exactly when no copy target is given and the flag is set. The call of
  \<open>renameFileTo\<close> puts the bytes of the file at the new path and leaves the file where it is,
  under its name. In every state
  of a concurrent run each call of a renaming is made for a candidate path, under the option
  that asks for it and with the arguments of the run. When the run has returned, the calls of
  \<open>renameFileTo\<close> carry exactly the returned records, one call for each, if a copy target is
  given, and there is none otherwise; the calls of \<open>renameFile\<close> carry exactly the returned
  records if no copy target is given and the flag is set, and there is none otherwise. The
  same holds, in the order of the records, for the sequential walk.
\<close>

theorem copy_takes_precedence:
  "(renameByHeaderTo opts \<noteq> [] \<longrightarrow>
      sideEffects opts path rec htmlContent =
        (if htmlOutDir opts \<noteq> []
         then [WriteHtmlFile path (inputRoot opts) (htmlOutDir opts) htmlContent] else [])
        @ [RenameFileTo path (inputRoot opts) (renameByHeaderTo opts) rec])
   \<and> (RenameFile p r \<in> set (sideEffects opts path rec htmlContent)
        \<longleftrightarrow> renameByHeaderTo opts = [] \<and> renameByHeader opts \<and> p = path \<and> r = rec)
   \<and> (renameFileTo_newPath lib path (inputRoot opts) (renameByHeaderTo opts) rec = Inr newPath
        \<and> disk path = Some bytes \<and> newPath \<noteq> path \<longrightarrow>
        perform lib (RenameFileTo path (inputRoot opts) (renameByHeaderTo opts) rec) disk
          = disk(newPath \<mapsto> bytes))
   \<and> (reachable lib opts process paths workerCount fs s \<longrightarrow>
        (RenameFile p r \<in> set (calls s)
           \<longrightarrow> renameByHeaderTo opts = [] \<and> renameByHeader opts \<and> p \<in> set paths)
        \<and> (RenameFileTo p i t r \<in> set (calls s)
             \<longrightarrow> renameByHeaderTo opts \<noteq> [] \<and> p \<in> set paths \<and> i = inputRoot opts
                 \<and> t = renameByHeaderTo opts))
   \<and> (0 < workerCount \<and> reachable lib opts process paths workerCount fs s
        \<and> returned s = Some recs \<longrightarrow>
        mset (concat (map copiedRecords (calls s)))
          = (if renameByHeaderTo opts \<noteq> [] then mset recs else {#})
        \<and> mset (concat (map renamedRecords (calls s)))
          = (if renameByHeaderTo opts = [] \<and> renameByHeader opts then mset recs else {#}))
   \<and> (walkDirectory lib opts process paths ([], [], fs) = (records, cs, fs') \<longrightarrow>
        concat (map copiedRecords cs) = (if renameByHeaderTo opts \<noteq> [] then records else [])
        \<and> concat (map renamedRecords cs)
          = (if renameByHeaderTo opts = [] \<and> renameByHeader opts then records else []))"
proof (intro conjI impI)
  assume "renameByHeaderTo opts \<noteq> []"
  then show "sideEffects opts path rec htmlContent =
        (if htmlOutDir opts \<noteq> []
         then [WriteHtmlFile path (inputRoot opts) (htmlOutDir opts) htmlContent] else [])
        @ [RenameFileTo path (inputRoot opts) (renameByHeaderTo opts) rec]"
    by (simp add: sideEffects_def)
next
  show "RenameFile p r \<in> set (sideEffects opts path rec htmlContent)
        \<longleftrightarrow> renameByHeaderTo opts = [] \<and> renameByHeader opts \<and> p = path \<and> r = rec"
    by (rule RenameFile_sideEffects)
next
  assume "renameFileTo_newPath lib path (inputRoot opts) (renameByHeaderTo opts) rec = Inr newPath
        \<and> disk path = Some bytes \<and> newPath \<noteq> path"
  then show "perform lib (RenameFileTo path (inputRoot opts) (renameByHeaderTo opts) rec) disk
          = disk(newPath \<mapsto> bytes)"
    by (auto simp: renameFileTo_def os_Open_def)
next
  assume r: "reachable lib opts process paths workerCount fs s"
    and c: "RenameFile p r \<in> set (calls s)"
  from calls_reachable [OF r] c obtain q rec' htmlContent' where
    "q \<in> set paths" "RenameFile p r \<in> set (sideEffects opts q rec' htmlContent')"
    by blast
  then show "renameByHeaderTo opts = []" and "renameByHeader opts" and "p \<in> set paths"
    by (simp_all add: RenameFile_sideEffects)
next
  assume r: "reachable lib opts process paths workerCount fs s"
    and c: "RenameFileTo p i t r \<in> set (calls s)"
  from calls_reachable [OF r] c obtain q rec' htmlContent' where
    "q \<in> set paths" "RenameFileTo p i t r \<in> set (sideEffects opts q rec' htmlContent')"
    by blast
  then show "renameByHeaderTo opts \<noteq> []" and "p \<in> set paths" and "i = inputRoot opts"
    and "t = renameByHeaderTo opts"
    by (simp_all add: RenameFileTo_sideEffects)
next
  assume a: "0 < workerCount \<and> reachable lib opts process paths workerCount fs s
        \<and> returned s = Some recs"
  then have w: "0 < workerCount" and r: "reachable lib opts process paths workerCount fs s"
    and f: "returned s = Some recs"
    by simp_all
  show "mset (concat (map copiedRecords (calls s)))
          = (if renameByHeaderTo opts \<noteq> [] then mset recs else {#})"
    by (rule paid_returned [OF r f w copied_sideEffects])
  show "mset (concat (map renamedRecords (calls s)))
          = (if renameByHeaderTo opts = [] \<and> renameByHeader opts then mset recs else {#})"
    by (rule paid_returned [OF r f w renamed_sideEffects])
next
  assume a: "walkDirectory lib opts process paths ([], [], fs) = (records, cs, fs')"
  have e: "concat (map h []) = (if b then [] else [])" for h :: "call \<Rightarrow> EmailRecord list" and b
    by simp
  show "concat (map copiedRecords cs) = (if renameByHeaderTo opts \<noteq> [] then records else [])"
    by (rule walkDirectory_paid [OF copied_sideEffects e a])
  show "concat (map renamedRecords cs)
          = (if renameByHeaderTo opts = [] \<and> renameByHeader opts then records else [])"
    by (rule walkDirectory_paid [OF renamed_sideEffects e a])
qed

theorem copy_takes_precedence_witness:
  "renameByHeaderTo example_options \<noteq> [] \<and> renameByHeader example_options
   \<and> sideEffects example_options ''in/a.eml'' (example_record_at ''a.eml'') []
       = [RenameFileTo ''in/a.eml'' ''in'' ''out'' (example_record_at ''a.eml'')]
   \<and> 0 < (2::nat)
   \<and> reachable example_library example_options
        (pipeline_gomessage example_library example_CreateReader) example_paths 2 example_files
        example_run
   \<and> returned example_run = Some [example_record_at ''a.eml'', example_record_at ''b.eml'']
   \<and> calls example_run
       = [RenameFileTo ''in/a.eml'' ''in'' ''out'' (example_record_at ''a.eml''),
          RenameFileTo ''in/b.eml'' ''in'' ''out'' (example_record_at ''b.eml'')]
   \<and> mset (concat (map copiedRecords (calls example_run)))
       = mset [example_record_at ''a.eml'', example_record_at ''b.eml'']
   \<and> concat (map renamedRecords (calls example_run)) = []
   \<and> renameFileTo_newPath example_library ''in/a.eml'' ''in'' ''out'' (example_record_at ''a.eml'')
       = Inr example_copy
   \<and> perform example_library
         (RenameFileTo ''in/a.eml'' ''in'' ''out'' (example_record_at ''a.eml'')) example_files
       = example_files(example_copy \<mapsto> example_message)
   \<and> files example_run example_copy = Some example_message
   \<and> files example_run ''in/a.eml'' = Some example_message
   \<and> fst (walkDirectory example_library example_options
             (pipeline_enmime example_library example_ReadEnvelope) example_paths
             ([], [], example_files))
       = [example_record_enmime_at ''a.eml'', example_record_enmime_at ''b.eml'']
   \<and> fst (snd (walkDirectory example_library example_options
                  (pipeline_enmime example_library example_ReadEnvelope) example_paths
                  ([], [], example_files)))
       = [RenameFileTo ''in/a.eml'' ''in'' ''out'' (example_record_enmime_at ''a.eml''),
          RenameFileTo ''in/b.eml'' ''in'' ''out'' (example_record_enmime_at ''b.eml'')]
   \<and> concat (map copiedRecords
         (fst (snd (walkDirectory example_library example_options
                      (pipeline_enmime example_library example_ReadEnvelope) example_paths
                      ([], [], example_files)))))
       = [example_record_enmime_at ''a.eml'', example_record_enmime_at ''b.eml'']
   \<and> reachable example_library example_options_inplace
        (pipeline_gomessage example_library example_CreateReader) example_paths_inplace 2
        example_files_inplace example_run_two
   \<and> calls example_run_two = [RenameFile ''in/a.eml'' (example_record_at ''a.eml'')]
   \<and> renameByHeaderTo example_options_inplace = []
   \<and> renameByHeader example_options_inplace"
proof -
  let ?P = "pipeline_gomessage example_library example_CreateReader"
  let ?ra = "example_record_at ''a.eml''"
  let ?rb = "example_record_at ''b.eml''"
  have a: "renameByHeaderTo example_options \<noteq> []" and b: "renameByHeader example_options"
    by (simp_all add: example_options_def)
  have c: "sideEffects example_options ''in/a.eml'' ?ra []
           = [RenameFileTo ''in/a.eml'' ''in'' ''out'' ?ra]"
    using copy_takes_precedence
            [where opts = example_options and path = "''in/a.eml''" and rec = ?ra
               and htmlContent = "[]", THEN conjunct1, THEN mp, OF a]
    by (simp add: example_options_def)
  have two: "0 < (2::nat)"
    by simp
  have r: "reachable example_library example_options ?P example_paths 2 example_files example_run"
    unfolding example_run_def by (rule follow_reachable)
  have f: "returned example_run = Some [?ra, ?rb]"
    by code_simp
  have g: "calls example_run
           = [RenameFileTo ''in/a.eml'' ''in'' ''out'' ?ra, RenameFileTo ''in/b.eml'' ''in'' ''out'' ?rb]"
    by code_simp
  have "mset (concat (map copiedRecords (calls example_run)))
          = (if renameByHeaderTo example_options \<noteq> [] then mset [?ra, ?rb] else {#})"
    by (rule copy_takes_precedence
          [where opts = example_options and lib = example_library and process = ?P
             and paths = example_paths and workerCount = 2 and fs = example_files
             and s = example_run and recs = "[?ra, ?rb]",
           THEN conjunct2, THEN conjunct2, THEN conjunct2, THEN conjunct2, THEN conjunct1,
           THEN mp, THEN conjunct1, OF conjI [OF two conjI [OF r f]]])
  then have h: "mset (concat (map copiedRecords (calls example_run))) = mset [?ra, ?rb]"
    using a by simp
  have i: "concat (map renamedRecords (calls example_run)) = []"
    unfolding g by simp
  have n: "renameFileTo_newPath example_library ''in/a.eml'' ''in'' ''out'' ?ra = Inr example_copy"
    by code_simp
  have n': "renameFileTo_newPath example_library ''in/a.eml'' (inputRoot example_options)
              (renameByHeaderTo example_options) ?ra = Inr example_copy
            \<and> example_files ''in/a.eml'' = Some example_message \<and> example_copy \<noteq> ''in/a.eml''"
    using n by (simp add: example_options_def example_files_def example_copy_def)
  from copy_takes_precedence
          [where opts = example_options and lib = example_library and path = "''in/a.eml''"
             and rec = ?ra and newPath = example_copy and disk = example_files
             and bytes = example_message,
           THEN conjunct2, THEN conjunct2, THEN conjunct1, THEN mp, OF n']
  have m: "perform example_library (RenameFileTo ''in/a.eml'' ''in'' ''out'' ?ra) example_files
           = example_files(example_copy \<mapsto> example_message)"
    by (simp add: example_options_def)
  have j: "files example_run example_copy = Some example_message"
    by code_simp
  have k: "files example_run ''in/a.eml'' = Some example_message"
    by code_simp
  let ?E = "pipeline_enmime example_library example_ReadEnvelope"
  let ?ea = "example_record_enmime_at ''a.eml''"
  let ?eb = "example_record_enmime_at ''b.eml''"
  let ?w = "walkDirectory example_library example_options ?E example_paths ([], [], example_files)"
  have w1: "fst ?w = [?ea, ?eb]"
    by code_simp
  have w2: "fst (snd ?w)
            = [RenameFileTo ''in/a.eml'' ''in'' ''out'' ?ea, RenameFileTo ''in/b.eml'' ''in'' ''out'' ?eb]"
    by code_simp
  have "?w = (fst ?w, fst (snd ?w), snd (snd ?w))"
    by simp
  from copy_takes_precedence
          [where opts = example_options and lib = example_library and process = ?E
             and paths = example_paths and fs = example_files and records = "fst ?w"
             and cs = "fst (snd ?w)" and fs' = "snd (snd ?w)",
           THEN conjunct2, THEN conjunct2, THEN conjunct2, THEN conjunct2, THEN conjunct2,
           THEN mp, THEN conjunct1, OF this]
  have "concat (map copiedRecords (fst (snd ?w)))
        = (if renameByHeaderTo example_options \<noteq> [] then fst ?w else [])" .
  then have w3: "concat (map copiedRecords (fst (snd ?w))) = [?ea, ?eb]"
    using a w1 by simp
  have r2: "reachable example_library example_options_inplace ?P example_paths_inplace 2
              example_files_inplace example_run_two"
    unfolding example_run_two_def by (rule follow_reachable)
  have g2: "calls example_run_two = [RenameFile ''in/a.eml'' ?ra]"
    by code_simp
  then have "RenameFile ''in/a.eml'' ?ra \<in> set (calls example_run_two)"
    by simp
  from copy_takes_precedence
          [where opts = example_options_inplace and lib = example_library and process = ?P
             and paths = example_paths_inplace and workerCount = 2
             and fs = example_files_inplace and s = example_run_two and p = "''in/a.eml''"
             and r = ?ra,
           THEN conjunct2, THEN conjunct2, THEN conjunct2, THEN conjunct1, THEN mp, OF r2,
           THEN conjunct1, THEN mp, OF this]
  have q: "renameByHeaderTo example_options_inplace = [] \<and> renameByHeader example_options_inplace
           \<and> ''in/a.eml'' \<in> set example_paths_inplace" .
  show ?thesis
    by (intro conjI a b c two r f g h i n m j k w1 w2 w3 r2 g2 q [THEN conjunct1]
        q [THEN conjunct2, THEN conjunct1])
qed

text \<open>
  C3, as amended. For a positive number of workers, under every interleaving of the
  goroutines: the run can always move until the function has returned, and every move lowers
  the weight, so every run ends with the function returned; then \<open>results\<close> holds exactly one
  result per candidate path and the returned records are the records of the results that are
  no errors, as many as there are paths less the failed pipelines of the run (the order is the
  order of arrival). When no call of one pipeline changes a path that another task names, the
  results are those that the candidate paths lead to on the file system as it is at the start:
  the returned records are the records of the files that are messages then, as many as there
  are paths less the files that are not, and a run with one worker returns the same records,
  up to order, as a run with any number of workers.
\<close>

theorem batch_result_count:
  assumes "0 < workerCount"
  shows "(\<exists>s. reachable lib opts (pipeline_gomessage lib mail_CreateReader) paths workerCount fs s
              \<and> returned s \<noteq> None)
    \<and> (\<forall>s. reachable lib opts (pipeline_gomessage lib mail_CreateReader) paths workerCount fs s
              \<and> returned s = None
          \<longrightarrow> (\<exists>s'. step lib opts (pipeline_gomessage lib mail_CreateReader) (length paths) s s'))
    \<and> (\<forall>s s'. step lib opts (pipeline_gomessage lib mail_CreateReader) (length paths) s s'
          \<longrightarrow> weight s' < weight s)
    \<and> (\<forall>s recs. reachable lib opts (pipeline_gomessage lib mail_CreateReader) paths workerCount fs s
              \<and> returned s = Some recs
          \<longrightarrow> length (results s) = length paths
              \<and> recs = concat (map success (results s))
              \<and> length recs
                  = length paths - length (filter (\<lambda>r. result_err r \<noteq> None) (results s)))
    \<and> (undisturbed lib opts (pipeline_gomessage lib mail_CreateReader) fs paths \<longrightarrow>
          (\<forall>s recs. reachable lib opts (pipeline_gomessage lib mail_CreateReader) paths
                        workerCount fs s
                 \<and> returned s = Some recs
             \<longrightarrow> mset (results s)
                   = mset (map (outcome opts (pipeline_gomessage lib mail_CreateReader) fs) paths)
                 \<and> mset recs
                   = mset (map (\<lambda>p. fst (projr (pipeline_gomessage lib mail_CreateReader fs p)))
                        (filter (\<lambda>p. \<not> isl (pipeline_gomessage lib mail_CreateReader fs p)) paths))
                 \<and> length recs
                   = length paths
                     - length (filter (\<lambda>p. isl (pipeline_gomessage lib mail_CreateReader fs p))
                         paths))
          \<and> (\<forall>s1 recs1 s recs.
                reachable lib opts (pipeline_gomessage lib mail_CreateReader) paths 1 fs s1
                \<and> returned s1 = Some recs1
                \<and> reachable lib opts (pipeline_gomessage lib mail_CreateReader) paths
                      workerCount fs s
                \<and> returned s = Some recs
                \<longrightarrow> length recs1 = length recs \<and> mset recs1 = mset recs))"
proof (intro conjI allI impI)
  let ?P = "pipeline_gomessage lib mail_CreateReader"
  show "\<exists>s. reachable lib opts ?P paths workerCount fs s \<and> returned s \<noteq> None"
    by (rule can_return)
next
  let ?P = "pipeline_gomessage lib mail_CreateReader"
  fix s
  assume "reachable lib opts ?P paths workerCount fs s \<and> returned s = None"
  then show "\<exists>s'. step lib opts ?P (length paths) s s'"
    using progress invariant_reachable by blast
next
  let ?P = "pipeline_gomessage lib mail_CreateReader"
  fix s s'
  assume "step lib opts ?P (length paths) s s'"
  then show "weight s' < weight s"
    by (rule step_weight)
next
  let ?P = "pipeline_gomessage lib mail_CreateReader"
  fix s recs
  assume "reachable lib opts ?P paths workerCount fs s \<and> returned s = Some recs"
  then have r: "reachable lib opts ?P paths workerCount fs s" and f: "returned s = Some recs"
    by simp_all
  note rs = returned_state [OF r f assms]
  show "length (results s) = length paths"
    by (rule rs(4))
  show "recs = concat (map success (results s))"
    by (rule rs(5))
  show "length recs = length paths - length (filter (\<lambda>r. result_err r \<noteq> None) (results s))"
    unfolding rs(5) length_success rs(4) ..
next
  let ?P = "pipeline_gomessage lib mail_CreateReader"
  fix s recs
  assume u: "undisturbed lib opts ?P fs paths"
    and "reachable lib opts ?P paths workerCount fs s \<and> returned s = Some recs"
  then have r: "reachable lib opts ?P paths workerCount fs s" and f: "returned s = Some recs"
    by simp_all
  note ur = undisturbed_records [of lib opts ?P paths workerCount fs s recs,
      OF r f assms u pipeline_gomessage_reads_own]
  show "mset (results s) = mset (map (outcome opts ?P fs) paths)"
    by (rule ur(1))
  show "mset recs = mset (map (\<lambda>p. fst (projr (?P fs p))) (filter (\<lambda>p. \<not> isl (?P fs p)) paths))"
    by (rule ur(2))
  show "length recs = length paths - length (filter (\<lambda>p. isl (?P fs p)) paths)"
    by (rule ur(3))
next
  let ?P = "pipeline_gomessage lib mail_CreateReader"
  fix s1 recs1 s recs
  assume u: "undisturbed lib opts ?P fs paths"
    and "reachable lib opts ?P paths 1 fs s1 \<and> returned s1 = Some recs1
         \<and> reachable lib opts ?P paths workerCount fs s \<and> returned s = Some recs"
  then have r1: "reachable lib opts ?P paths 1 fs s1" and f1: "returned s1 = Some recs1"
    and r: "reachable lib opts ?P paths workerCount fs s" and f: "returned s = Some recs"
    by simp_all
  have one: "0 < (1::nat)"
    by simp
  note u1 = undisturbed_records [of lib opts ?P paths 1 fs s1 recs1,
      OF r1 f1 one u pipeline_gomessage_reads_own]
  note ur = undisturbed_records [of lib opts ?P paths workerCount fs s recs,
      OF r f assms u pipeline_gomessage_reads_own]
  show "length recs1 = length recs"
    using u1(3) ur(3) by simp
  show "mset recs1 = mset recs"
    using u1(2) ur(2) by simp
qed

theorem batch_result_count_witness:
  "0 < (2::nat)
   \<and> undisturbed example_library example_options
        (pipeline_gomessage example_library example_CreateReader) example_files example_paths
   \<and> reachable example_library example_options
        (pipeline_gomessage example_library example_CreateReader) example_paths 2 example_files
        example_run
   \<and> returned example_run = Some [example_record_at ''a.eml'', example_record_at ''b.eml'']
   \<and> length example_paths = 3
   \<and> filter (\<lambda>p. isl (pipeline_gomessage example_library example_CreateReader example_files p))
        example_paths = [''in/bad.eml'']
   \<and> length (results example_run) = 3
   \<and> length [example_record_at ''a.eml'', example_record_at ''b.eml'']
       = length example_paths
         - length (filter (\<lambda>p. isl (pipeline_gomessage example_library example_CreateReader
                                        example_files p)) example_paths)"
proof -
  let ?P = "pipeline_gomessage example_library example_CreateReader"
  let ?ra = "example_record_at ''a.eml''"
  let ?rb = "example_record_at ''b.eml''"
  have two: "0 < (2::nat)"
    by simp
  have u: "undisturbed example_library example_options ?P example_files example_paths"
    by code_simp
  have r: "reachable example_library example_options ?P example_paths 2 example_files example_run"
    unfolding example_run_def by (rule follow_reachable)
  have f: "returned example_run = Some [?ra, ?rb]"
    by code_simp
  have len: "length example_paths = 3"
    by (simp add: example_paths_def)
  have bad: "filter (\<lambda>p. isl (?P example_files p)) example_paths = [''in/bad.eml'']"
    by code_simp
  note T = batch_result_count
      [OF two, of example_library example_options example_CreateReader example_paths example_files]
  from T [THEN conjunct2, THEN conjunct2, THEN conjunct2, THEN conjunct1, rule_format,
          OF conjI [OF r f]]
  have "length (results example_run) = length example_paths"
    by (rule conjunct1)
  then have res: "length (results example_run) = 3"
    unfolding len .
  from T [THEN conjunct2, THEN conjunct2, THEN conjunct2, THEN conjunct2, THEN mp, OF u,
          THEN conjunct1, rule_format, OF conjI [OF r f]]
  have n: "length [?ra, ?rb]
        = length example_paths - length (filter (\<lambda>p. isl (?P example_files p)) example_paths)"
    by blast
  show ?thesis
    by (intro conjI two u r f len bad res n)
qed

text \<open>
  C3 as stated fails when the renaming in place of one file puts it at the path of another
  candidate. Of the two example files only the first is a message at the start. With one
  worker, which takes them one after the other, the second path names a copy of the message
  when its turn comes, and the batch returns two records; with two workers and the second
  file read before the renaming, it returns one.
\<close>

theorem batch_result_count_counterexample:
  "isl (pipeline_gomessage example_library example_CreateReader example_files_inplace
          ''in/unknown Re_ Q1.eml'')
   \<and> \<not> isl (pipeline_gomessage example_library example_CreateReader example_files_inplace
              ''in/a.eml'')
   \<and> renameFile_newPath example_library ''in/a.eml'' (example_record_at ''a.eml'')
       = ''in/unknown Re_ Q1.eml''
   \<and> reachable example_library example_options_inplace
        (pipeline_gomessage example_library example_CreateReader) example_paths_inplace 1
        example_files_inplace example_run_one
   \<and> returned example_run_one
       = Some [example_record_at ''a.eml'', example_record_at ''unknown Re_ Q1.eml'']
   \<and> reachable example_library example_options_inplace
        (pipeline_gomessage example_library example_CreateReader) example_paths_inplace 2
        example_files_inplace example_run_two
   \<and> returned example_run_two = Some [example_record_at ''a.eml'']
   \<and> length (the (returned example_run_one)) \<noteq> length (the (returned example_run_two))"
proof -
  let ?P = "pipeline_gomessage example_library example_CreateReader"
  have a: "isl (?P example_files_inplace ''in/unknown Re_ Q1.eml'')"
    by code_simp
  have b: "\<not> isl (?P example_files_inplace ''in/a.eml'')"
    by code_simp
  have c: "renameFile_newPath example_library ''in/a.eml'' (example_record_at ''a.eml'')
           = ''in/unknown Re_ Q1.eml''"
    by code_simp
  have r1: "reachable example_library example_options_inplace ?P example_paths_inplace 1
              example_files_inplace example_run_one"
    unfolding example_run_one_def by (rule follow_reachable)
  have f1: "returned example_run_one
            = Some [example_record_at ''a.eml'', example_record_at ''unknown Re_ Q1.eml'']"
    by code_simp
  have r2: "reachable example_library example_options_inplace ?P example_paths_inplace 2
              example_files_inplace example_run_two"
    unfolding example_run_two_def by (rule follow_reachable)
  have f2: "returned example_run_two = Some [example_record_at ''a.eml'']"
    by code_simp
  have d: "length (the (returned example_run_one)) \<noteq> length (the (returned example_run_two))"
    unfolding f1 f2 by simp
  show ?thesis
    by (intro conjI a b c r1 f1 r2 f2 d)
qed

end
